theory Spec2Isabelle
  imports Main
begin

section \<open>Python primitives used by both simulators\<close>

text \<open>
  Python integers are unbounded (\<open>int\<close>). An exception that leaves \<open>run\<close> is a value
  \<open>Inl e\<close>; a call that returns normally is \<open>Inr v\<close>.
\<close>

datatype error = ZeroDivisionError | IndexError | ValueError | TypeError | KeyError

text \<open>\<open>a % b\<close> and \<open>a // b\<close>: floor semantics, as HOL's \<open>mod\<close> and \<open>div\<close> on \<open>int\<close>,
  but a zero divisor raises.\<close>

definition py_mod :: "int \<Rightarrow> int \<Rightarrow> error + int" where
  "py_mod a b = (if b = 0 then Inl ZeroDivisionError else Inr (a mod b))"

definition py_floordiv :: "int \<Rightarrow> int \<Rightarrow> error + int" where
  "py_floordiv a b = (if b = 0 then Inl ZeroDivisionError else Inr (a div b))"

text \<open>The position a subscript \<open>xs[i]\<close> denotes: a negative \<open>i\<close> counts from the end,
  anything outside \<open>-len \<le> i < len\<close> raises IndexError.\<close>

definition py_index :: "'a list \<Rightarrow> int \<Rightarrow> error + nat" where
  "py_index xs i =
     (if 0 \<le> i \<and> i < int (length xs) then Inr (nat i)
      else if i < 0 \<and> - int (length xs) \<le> i then Inr (nat (int (length xs) + i))
      else Inl IndexError)"

text \<open>\<open>xs.pop(0)\<close>: the first element and the rest; IndexError on the empty list.\<close>

definition pop0 :: "'a list \<Rightarrow> error + ('a \<times> 'a list)" where
  "pop0 xs = (case xs of [] \<Rightarrow> Inl IndexError | x # rest \<Rightarrow> Inr (x, rest))"

text \<open>\<open>xs.index(v)\<close>: the first position holding \<open>v\<close>; ValueError when there is none.\<close>

fun list_index :: "'a list \<Rightarrow> 'a \<Rightarrow> error + nat" where
  "list_index [] v = Inl ValueError"
| "list_index (x # xs) v =
     (if x = v then Inr 0
      else (case list_index xs v of Inl e \<Rightarrow> Inl e | Inr k \<Rightarrow> Inr (Suc k)))"


section \<open>cache\_simulator.py: the fixed-policy simulator\<close>

subsection \<open>Configuration, blocks and sets\<close>

text \<open>The \<open>config\<close> dictionary of \<open>get_input_data\<close>, one field per key.\<close>

record config =
  cache_size :: int
  block_size :: int
  mapping :: string
  replacement_policy :: string

definition get_input_data :: "config \<times> int list" where
  "get_input_data =
     (\<lparr>cache_size = 4, block_size = 1, mapping = ''Direct'', replacement_policy = ''LRU''\<rparr>,
      [1, 2, 3, 2, 4, 1, 5, 6, 2, 1, 7, 8])"

datatype CacheBlock = CacheBlock (tag: int)

record CacheSet =
  blocks :: "CacheBlock list"
  associativity :: int

definition CacheSet_init :: "int \<Rightarrow> CacheSet" where
  "CacheSet_init a = \<lparr>blocks = [], associativity = a\<rparr>"

definition is_full :: "CacheSet \<Rightarrow> bool" where
  "is_full s = (int (length (blocks s)) \<ge> associativity s)"

definition find_block :: "CacheSet \<Rightarrow> int \<Rightarrow> CacheBlock option" where
  "find_block s t = find (\<lambda>block. tag block = t) (blocks s)"

text \<open>\<open>remove_block\<close> pops position 0 and returns the popped block.\<close>

definition remove_block :: "CacheSet \<Rightarrow> error + (CacheBlock \<times> CacheSet)" where
  "remove_block s =
     (case pop0 (blocks s) of
        Inl e \<Rightarrow> Inl e
      | Inr (b, rest) \<Rightarrow> Inr (b, s\<lparr>blocks := rest\<rparr>))"

definition add_block :: "CacheSet \<Rightarrow> CacheBlock \<Rightarrow> CacheSet" where
  "add_block s b = s\<lparr>blocks := blocks s @ [b]\<rparr>"

subsection \<open>The cache and its address mapping\<close>

text \<open>The attributes of a \<open>Cache\<close> object; \<open>c_\<close> marks the three copied from the
  configuration.\<close>

record Cache =
  c_mapping :: string
  c_replacement_policy :: string
  c_cache_size :: int
  sets :: "CacheSet list"

text \<open>\<open>range(n)\<close> is empty for \<open>n \<le> 0\<close>, hence \<open>nat\<close>. A mapping string that is none of
  the three leaves \<open>sets\<close> empty.\<close>

definition Cache_init :: "config \<Rightarrow> Cache" where
  "Cache_init cfg =
     \<lparr>c_mapping = mapping cfg,
      c_replacement_policy = replacement_policy cfg,
      c_cache_size = cache_size cfg,
      sets =
        (if mapping cfg = ''Direct'' then
           replicate (nat (cache_size cfg)) (CacheSet_init 1)
         else if mapping cfg = ''Fully-Associative'' then
           [CacheSet_init (cache_size cfg)]
         else if mapping cfg = ''Set-Associative'' then
           replicate 2 (CacheSet_init (cache_size cfg div 2))
         else [])\<rparr>"

definition get_set_index :: "Cache \<Rightarrow> int \<Rightarrow> error + int" where
  "get_set_index c address =
     (if c_mapping c = ''Direct'' then py_mod address (c_cache_size c)
      else if c_mapping c = ''Set-Associative'' then py_mod address (int (length (sets c)))
      else Inr 0)"

subsection \<open>Replacement policies\<close>

text \<open>\<open>apply_lru_policy\<close>: the first block whose tag matches is popped and appended;
  the loop stops there. Without a match the list is unchanged.\<close>

fun apply_lru_policy_blocks :: "CacheBlock list \<Rightarrow> int \<Rightarrow> CacheBlock list" where
  "apply_lru_policy_blocks [] t = []"
| "apply_lru_policy_blocks (block # rest) t =
     (if tag block = t then rest @ [block] else block # apply_lru_policy_blocks rest t)"

definition apply_lru_policy :: "CacheSet \<Rightarrow> int \<Rightarrow> CacheSet" where
  "apply_lru_policy s t = s\<lparr>blocks := apply_lru_policy_blocks (blocks s) t\<rparr>"

definition apply_fifo_policy :: "CacheSet \<Rightarrow> error + (CacheBlock \<times> CacheSet)" where
  "apply_fifo_policy s = remove_block s"

subsection \<open>The simulation engine\<close>

record CacheSimulator =
  config :: config
  cache :: Cache
  hits :: int
  misses :: int
  access_log :: "(int \<times> string) list"

definition CacheSimulator_init :: "config \<Rightarrow> CacheSimulator" where
  "CacheSimulator_init cfg =
     \<lparr>config = cfg, cache = Cache_init cfg, hits = 0, misses = 0, access_log = []\<rparr>"

text \<open>
  The part of the loop body of \<open>run\<close> that works on the selected set (from
  \<open>find_block\<close> to \<open>add_block\<close>): the set after the access, the status string, and the
  block that \<open>remove_block\<close> popped, if any. The source drops the popped block; the model
  keeps it as an observation of the eviction.
  A policy string other than "FIFO" and "LRU" removes nothing from a full set.
\<close>

definition access_set :: "string \<Rightarrow> CacheSet \<Rightarrow> int \<Rightarrow> error + (CacheSet \<times> string \<times> CacheBlock option)" where
  "access_set policy cache_set addr =
     (case find_block cache_set addr of
        Some block \<Rightarrow>
          Inr (if policy = ''LRU'' then apply_lru_policy cache_set addr else cache_set,
               ''HIT'', None)
      | None \<Rightarrow>
          (if is_full cache_set then
             (if policy = ''FIFO'' then
                (case apply_fifo_policy cache_set of
                   Inl e \<Rightarrow> Inl e
                 | Inr (victim, s') \<Rightarrow> Inr (add_block s' (CacheBlock addr), ''MISS'', Some victim))
              else if policy = ''LRU'' then
                (case remove_block cache_set of
                   Inl e \<Rightarrow> Inl e
                 | Inr (victim, s') \<Rightarrow> Inr (add_block s' (CacheBlock addr), ''MISS'', Some victim))
              else Inr (add_block cache_set (CacheBlock addr), ''MISS'', None))
           else Inr (add_block cache_set (CacheBlock addr), ''MISS'', None)))"

text \<open>What one access did: the position of the set in \<open>sets\<close>, the address, the status
  and the evicted block.\<close>

record event =
  ev_set :: nat
  ev_addr :: int
  ev_status :: string
  ev_victim :: "CacheBlock option"

text \<open>One iteration of the loop of \<open>run\<close>. The counter that is incremented is the one
  of the branch that produced the status.\<close>

definition access :: "CacheSimulator \<Rightarrow> int \<Rightarrow> error + (CacheSimulator \<times> event)" where
  "access sim addr =
     (case get_set_index (cache sim) addr of
        Inl e \<Rightarrow> Inl e
      | Inr set_index \<Rightarrow>
          (case py_index (sets (cache sim)) set_index of
             Inl e \<Rightarrow> Inl e
           | Inr i \<Rightarrow>
               (case access_set (replacement_policy (config sim)) (sets (cache sim) ! i) addr of
                  Inl e \<Rightarrow> Inl e
                | Inr (s', status, victim) \<Rightarrow>
                    Inr (sim\<lparr>cache := (cache sim)\<lparr>sets := (sets (cache sim))[i := s']\<rparr>,
                             hits := (if status = ''HIT'' then hits sim + 1 else hits sim),
                             misses := (if status = ''HIT'' then misses sim else misses sim + 1),
                             access_log := access_log sim @ [(addr, status)]\<rparr>,
                         \<lparr>ev_set = i, ev_addr = addr, ev_status = status, ev_victim = victim\<rparr>))))"

fun run_loop :: "CacheSimulator \<Rightarrow> int list \<Rightarrow> error + (CacheSimulator \<times> event list)" where
  "run_loop sim [] = Inr (sim, [])"
| "run_loop sim (addr # rest) =
     (case access sim addr of
        Inl e \<Rightarrow> Inl e
      | Inr (sim', ev) \<Rightarrow>
          (case run_loop sim' rest of
             Inl e \<Rightarrow> Inl e
           | Inr (sim'', evs) \<Rightarrow> Inr (sim'', ev # evs)))"

text \<open>The dictionary \<open>run\<close> returns.\<close>

record results =
  r_hits :: int
  r_misses :: int
  r_total :: int
  r_log :: "(int \<times> string) list"

definition run :: "CacheSimulator \<Rightarrow> int list \<Rightarrow> error + results" where
  "run sim memory_accesses =
     (case run_loop sim memory_accesses of
        Inl e \<Rightarrow> Inl e
      | Inr (sim', evs) \<Rightarrow>
          Inr \<lparr>r_hits = hits sim', r_misses = misses sim',
               r_total = int (length memory_accesses), r_log = access_log sim'\<rparr>)"


section \<open>os.py: the simulator with a replacement-policy callback\<close>

subsection \<open>Configuration and simulator state\<close>

datatype MappingType = DIRECT | FULLY_ASSOCIATIVE | SET_ASSOCIATIVE

datatype ReplacementPolicy = RANDOM | FIFO | LRU

text \<open>The \<open>config\<close> dictionary built by \<open>run_simulation\<close>. The key "associativity" may
  be absent, and \<open>askinteger\<close> may return \<open>None\<close>: both are \<open>None\<close> here.\<close>

record os_config =
  cfg_sequence :: "int list"
  cfg_cache_size :: int
  cfg_mapping :: MappingType
  cfg_associativity :: "int option"

text \<open>
  The attributes of the simulator object. The attribute \<open>cache\<close> is a flat list under
  DIRECT and FULLY\_ASSOCIATIVE (\<open>os_cache\<close>, where \<open>None\<close> is an empty slot of the direct
  mapping) and a list of lists under SET\_ASSOCIATIVE (\<open>cache_sets\<close>); the mapping never
  changes, so each shape has its own field. The dictionaries \<open>fifo_queues\<close> and
  \<open>lru_stacks\<close> are maps from the set index. \<open>asked\<close> counts the calls of the policy
  callback so far.
  The last two fields are no attributes of the source object. They record, in order, what
  the steps store and overwrite: \<open>inserted\<close> gets the pair (index, entry) whenever a miss
  stores an entry under that slot or set index (index 0 for the single fully associative
  list), \<open>evicted\<close> the pair (index, entry) whenever an entry is overwritten.
\<close>

record os_CacheSimulator =
  sequence :: "int list"
  os_cache_size :: int
  os_mapping :: MappingType
  os_associativity :: "int option"
  os_hits :: int
  os_misses :: int
  history :: "string list"
  num_sets :: int
  os_cache :: "int option list"
  cache_sets :: "int list list"
  fifo_queue :: "int option list"
  lru_stack :: "int option list"
  fifo_queues :: "int \<rightharpoonup> int list"
  lru_stacks :: "int \<rightharpoonup> int list"
  asked :: nat
  inserted :: "(int \<times> int option) list"
  evicted :: "(int \<times> int option) list"

text \<open>\<open>cache_size // None\<close> raises TypeError, \<open>cache_size // 0\<close> ZeroDivisionError.\<close>

definition os_CacheSimulator_init :: "os_config \<Rightarrow> error + os_CacheSimulator" where
  "os_CacheSimulator_init cfg =
     (if cfg_mapping cfg = SET_ASSOCIATIVE then
        (case cfg_associativity cfg of
           None \<Rightarrow> Inl TypeError
         | Some a \<Rightarrow>
             (case py_floordiv (cfg_cache_size cfg) a of
                Inl e \<Rightarrow> Inl e
              | Inr n \<Rightarrow>
                  Inr \<lparr>sequence = cfg_sequence cfg, os_cache_size = cfg_cache_size cfg,
                       os_mapping = cfg_mapping cfg, os_associativity = cfg_associativity cfg,
                       os_hits = 0, os_misses = 0, history = [], num_sets = n,
                       os_cache = [], cache_sets = replicate (nat n) [],
                       fifo_queue = [], lru_stack = [],
                       fifo_queues = (\<lambda>i. if 0 \<le> i \<and> i < n then Some [] else None),
                       lru_stacks = (\<lambda>i. if 0 \<le> i \<and> i < n then Some [] else None),
                       asked = 0, inserted = [], evicted = []\<rparr>))
      else
        Inr \<lparr>sequence = cfg_sequence cfg, os_cache_size = cfg_cache_size cfg,
             os_mapping = cfg_mapping cfg, os_associativity = cfg_associativity cfg,
             os_hits = 0, os_misses = 0, history = [], num_sets = 0,
             os_cache = [], cache_sets = [],
             fifo_queue = [], lru_stack = [],
             fifo_queues = Map.empty, lru_stacks = Map.empty,
             asked = 0, inserted = [], evicted = []\<rparr>)"

subsection \<open>The collaborators: policy callback and random generator\<close>

text \<open>
  \<open>ask_policy_callback env k\<close> is what the callback answers at its call number \<open>k\<close>
  (counted from 0); \<open>random_source env k\<close> is the raw number the generator yields when that
  eviction draws. Each eviction calls the callback once and draws at most once.
\<close>

record environment =
  ask_policy_callback :: "nat \<Rightarrow> ReplacementPolicy"
  random_source :: "nat \<Rightarrow> nat"

text \<open>\<open>random.randint(a, b)\<close>: some integer of \<open>[a, b]\<close>, ValueError on an empty range.\<close>

definition randint :: "nat \<Rightarrow> int \<Rightarrow> int \<Rightarrow> error + int" where
  "randint r a b = (if b < a then Inl ValueError else Inr (a + int (r mod nat (b - a + 1))))"

subsection \<open>Eviction index\<close>

text \<open>Returns the index and the two lists \<open>fifo\<close> and \<open>lru\<close> as the call leaves them.
  \<open>fifo.extend(cache_set)\<close> happens only on an empty \<open>fifo\<close>.\<close>

definition os_get_eviction_index ::
  "nat \<Rightarrow> ReplacementPolicy \<Rightarrow> 'a list \<Rightarrow> 'a list \<Rightarrow> 'a list \<Rightarrow> error + (int \<times> 'a list \<times> 'a list)" where
  "os_get_eviction_index r policy cache_set fifo lru =
     (case policy of
        RANDOM \<Rightarrow>
          (case randint r 0 (int (length cache_set) - 1) of
             Inl e \<Rightarrow> Inl e
           | Inr k \<Rightarrow> Inr (k, fifo, lru))
      | FIFO \<Rightarrow>
          (case pop0 (if fifo = [] then fifo @ cache_set else fifo) of
             Inl e \<Rightarrow> Inl e
           | Inr (victim, fifo') \<Rightarrow>
               (case list_index cache_set victim of
                  Inl e \<Rightarrow> Inl e
                | Inr k \<Rightarrow> Inr (int k, fifo', lru)))
      | LRU \<Rightarrow>
          (case pop0 (if lru = [] then lru @ cache_set else lru) of
             Inl e \<Rightarrow> Inl e
           | Inr (victim, lru') \<Rightarrow>
               (case list_index cache_set victim of
                  Inl e \<Rightarrow> Inl e
                | Inr k \<Rightarrow> Inr (int k, fifo, lru'))))"

subsection \<open>The three mappings\<close>

definition os_direct_mapping :: "os_CacheSimulator \<Rightarrow> int \<Rightarrow> error + os_CacheSimulator" where
  "os_direct_mapping sim address =
     (let cache1 =
            (if int (length (os_cache sim)) < os_cache_size sim then
               os_cache sim @ replicate (nat (os_cache_size sim - int (length (os_cache sim)))) None
             else os_cache sim)
      in case py_mod address (os_cache_size sim) of
           Inl e \<Rightarrow> Inl e
         | Inr index \<Rightarrow>
             (case py_index cache1 index of
                Inl e \<Rightarrow> Inl e
              | Inr i \<Rightarrow>
                  (if cache1 ! i = Some address then
                     Inr (sim\<lparr>os_cache := cache1, os_hits := os_hits sim + 1,
                              history := history sim @ [''H'']\<rparr>)
                   else
                     Inr (sim\<lparr>os_cache := cache1[i := Some address],
                              os_misses := os_misses sim + 1,
                              history := history sim @ [''M''],
                              inserted := inserted sim @ [(index, Some address)],
                              evicted := evicted sim @
                                (case cache1 ! i of
                                   None \<Rightarrow> []
                                 | Some v \<Rightarrow> [(index, Some v)])\<rparr>))))"

definition os_fully_associative ::
  "environment \<Rightarrow> os_CacheSimulator \<Rightarrow> int \<Rightarrow> error + os_CacheSimulator" where
  "os_fully_associative env sim address =
     (if Some address \<in> set (os_cache sim) then
        Inr (sim\<lparr>os_hits := os_hits sim + 1, history := history sim @ [''H'']\<rparr>)
      else if int (length (os_cache sim)) < os_cache_size sim then
        Inr (sim\<lparr>os_misses := os_misses sim + 1, history := history sim @ [''M''],
                 os_cache := os_cache sim @ [Some address],
                 inserted := inserted sim @ [(0, Some address)]\<rparr>)
      else
        (case os_get_eviction_index (random_source env (asked sim))
                (ask_policy_callback env (asked sim))
                (os_cache sim) (fifo_queue sim) (lru_stack sim) of
           Inl e \<Rightarrow> Inl e
         | Inr (evict_index, fifo', lru') \<Rightarrow>
             (case py_index (os_cache sim) evict_index of
                Inl e \<Rightarrow> Inl e
              | Inr i \<Rightarrow>
                  Inr (sim\<lparr>os_misses := os_misses sim + 1, history := history sim @ [''M''],
                           os_cache := (os_cache sim)[i := Some address],
                           fifo_queue := fifo', lru_stack := lru',
                           asked := Suc (asked sim),
                           inserted := inserted sim @ [(0, Some address)],
                           evicted := evicted sim @ [(0, os_cache sim ! i)]\<rparr>))))"

text \<open>\<open>len(cache_set) < self.associativity\<close> raises TypeError on \<open>None\<close>; a missing
  dictionary key raises KeyError.\<close>

definition os_set_associative ::
  "environment \<Rightarrow> os_CacheSimulator \<Rightarrow> int \<Rightarrow> error + os_CacheSimulator" where
  "os_set_associative env sim address =
     (case py_mod address (num_sets sim) of
        Inl e \<Rightarrow> Inl e
      | Inr set_index \<Rightarrow>
          (case py_index (cache_sets sim) set_index of
             Inl e \<Rightarrow> Inl e
           | Inr s \<Rightarrow>
               (let cache_set = cache_sets sim ! s in
                if address \<in> set cache_set then
                  Inr (sim\<lparr>os_hits := os_hits sim + 1, history := history sim @ [''H'']\<rparr>)
                else
                  (case os_associativity sim of
                     None \<Rightarrow> Inl TypeError
                   | Some assoc \<Rightarrow>
                       (if int (length cache_set) < assoc then
                          Inr (sim\<lparr>os_misses := os_misses sim + 1,
                                   history := history sim @ [''M''],
                                   cache_sets := (cache_sets sim)[s := cache_set @ [address]],
                                   inserted := inserted sim @ [(set_index, Some address)]\<rparr>)
                        else
                          (case fifo_queues sim set_index of
                             None \<Rightarrow> Inl KeyError
                           | Some fifo \<Rightarrow>
                               (case lru_stacks sim set_index of
                                  None \<Rightarrow> Inl KeyError
                                | Some lru \<Rightarrow>
                                    (case os_get_eviction_index (random_source env (asked sim))
                                            (ask_policy_callback env (asked sim))
                                            cache_set fifo lru of
                                       Inl e \<Rightarrow> Inl e
                                     | Inr (evict_index, fifo', lru') \<Rightarrow>
                                         (case py_index cache_set evict_index of
                                            Inl e \<Rightarrow> Inl e
                                          | Inr i \<Rightarrow>
                                              Inr (sim\<lparr>os_misses := os_misses sim + 1,
                                                       history := history sim @ [''M''],
                                                       cache_sets :=
                                                         (cache_sets sim)[s := cache_set[i := address]],
                                                       fifo_queues := (fifo_queues sim)(set_index \<mapsto> fifo'),
                                                       lru_stacks := (lru_stacks sim)(set_index \<mapsto> lru'),
                                                       asked := Suc (asked sim),
                                                       inserted :=
                                                         inserted sim @ [(set_index, Some address)],
                                                       evicted :=
                                                         evicted sim @
                                                           [(set_index, Some (cache_set ! i))]\<rparr>))))))))))"

subsection \<open>The run\<close>

definition os_step :: "environment \<Rightarrow> os_CacheSimulator \<Rightarrow> int \<Rightarrow> error + os_CacheSimulator" where
  "os_step env sim address =
     (case os_mapping sim of
        DIRECT \<Rightarrow> os_direct_mapping sim address
      | FULLY_ASSOCIATIVE \<Rightarrow> os_fully_associative env sim address
      | SET_ASSOCIATIVE \<Rightarrow> os_set_associative env sim address)"

fun os_run_loop :: "environment \<Rightarrow> os_CacheSimulator \<Rightarrow> int list \<Rightarrow> error + os_CacheSimulator" where
  "os_run_loop env sim [] = Inr sim"
| "os_run_loop env sim (address # rest) =
     (case os_step env sim address of
        Inl e \<Rightarrow> Inl e
      | Inr sim' \<Rightarrow> os_run_loop env sim' rest)"

text \<open>The dictionary \<open>run\<close> returns; its entry "cache" is \<open>res_cache\<close> or
  \<open>res_cache_sets\<close>, by the mapping.\<close>

record os_results =
  res_hits :: int
  res_misses :: int
  res_cache :: "int option list"
  res_cache_sets :: "int list list"
  res_history :: "string list"
  res_sequence :: "int list"

definition os_run :: "environment \<Rightarrow> os_CacheSimulator \<Rightarrow> error + os_results" where
  "os_run env sim =
     (case os_run_loop env sim (sequence sim) of
        Inl e \<Rightarrow> Inl e
      | Inr sim' \<Rightarrow>
          Inr \<lparr>res_hits = os_hits sim', res_misses = os_misses sim',
               res_cache = os_cache sim', res_cache_sets = cache_sets sim',
               res_history = history sim', res_sequence = sequence sim'\<rparr>)"

text \<open>\<open>run_simulation\<close>: construct, then run.\<close>

definition os_simulate :: "environment \<Rightarrow> os_config \<Rightarrow> error + os_results" where
  "os_simulate env cfg =
     (case os_CacheSimulator_init cfg of
        Inl e \<Rightarrow> Inl e
      | Inr sim \<Rightarrow> os_run env sim)"


section \<open>Predicates used in the statements\<close>

text \<open>The geometries under which the fixed-policy simulator has at least one set and every
  set has room for a block: a positive capacity, and at least two blocks under
  "Set-Associative", whose associativity is \<open>cache_size // 2\<close>.\<close>

definition valid_geometry :: "config \<Rightarrow> bool" where
  "valid_geometry cfg =
     (mapping cfg = ''Direct'' \<and> 0 < cache_size cfg \<or>
      mapping cfg = ''Fully-Associative'' \<and> 0 < cache_size cfg \<or>
      mapping cfg = ''Set-Associative'' \<and> 2 \<le> cache_size cfg)"

text \<open>The invariant of a set: no more blocks than its associativity, no tag twice.\<close>

definition set_inv :: "CacheSet \<Rightarrow> bool" where
  "set_inv s = (int (length (blocks s)) \<le> associativity s \<and> distinct (map tag (blocks s)))"

text \<open>What the loop of \<open>run\<close> relies on: some set exists, every set has associativity at
  least 1, and under "Direct" the modulus is the number of sets.\<close>

definition geometry_ok :: "Cache \<Rightarrow> bool" where
  "geometry_ok c =
     (sets c \<noteq> [] \<and> (\<forall>s \<in> set (sets c). 1 \<le> associativity s) \<and>
      (c_mapping c = ''Direct'' \<longrightarrow> c_cache_size c = int (length (sets c))))"

definition inserted_into :: "event list \<Rightarrow> nat \<Rightarrow> int list" where
  "inserted_into evs i =
     map ev_addr (filter (\<lambda>e. ev_set e = i \<and> ev_status e = ''MISS'') evs)"

definition evicted_from :: "event list \<Rightarrow> nat \<Rightarrow> int list" where
  "evicted_from evs i =
     List.map_filter (\<lambda>e. if ev_set e = i then map_option tag (ev_victim e) else None) evs"

definition resident :: "CacheSimulator \<Rightarrow> nat \<Rightarrow> int list" where
  "resident sim i = map tag (blocks (sets (cache sim) ! i))"

definition queue_ok :: "ReplacementPolicy \<Rightarrow> int \<Rightarrow> 'a list \<Rightarrow> 'a list \<Rightarrow> 'a list \<Rightarrow> bool" where
  "queue_ok p cap cache_set fifo lru =
     ((int (length cache_set) < cap \<longrightarrow> fifo = [] \<and> lru = []) \<and>
      (case p of
         RANDOM \<Rightarrow> fifo = [] \<and> lru = []
       | FIFO \<Rightarrow> lru = [] \<and> (\<exists>k. fifo = drop k cache_set)
       | LRU \<Rightarrow> fifo = [] \<and> (\<exists>k. lru = drop k cache_set)))"

definition os_inv :: "ReplacementPolicy \<Rightarrow> os_CacheSimulator \<Rightarrow> bool" where
  "os_inv p sim =
     (case os_mapping sim of
        DIRECT \<Rightarrow> 0 < os_cache_size sim
      | FULLY_ASSOCIATIVE \<Rightarrow>
          0 < os_cache_size sim \<and> distinct (os_cache sim) \<and>
          int (length (os_cache sim)) \<le> os_cache_size sim \<and>
          queue_ok p (os_cache_size sim) (os_cache sim) (fifo_queue sim) (lru_stack sim)
      | SET_ASSOCIATIVE \<Rightarrow>
          0 < num_sets sim \<and> num_sets sim = int (length (cache_sets sim)) \<and>
          (\<exists>a. os_associativity sim = Some a \<and> 1 \<le> a \<and>
             (\<forall>s < length (cache_sets sim).
                distinct (cache_sets sim ! s) \<and> int (length (cache_sets sim ! s)) \<le> a \<and>
                (\<exists>q l. fifo_queues sim (int s) = Some q \<and> lru_stacks sim (int s) = Some l \<and>
                       queue_ok p a (cache_sets sim ! s) q l))))"

definition os_valid_geometry :: "os_config \<Rightarrow> bool" where
  "os_valid_geometry cfg =
     (0 < cfg_cache_size cfg \<and>
      (cfg_mapping cfg = SET_ASSOCIATIVE \<longrightarrow>
         (case cfg_associativity cfg of
            None \<Rightarrow> False
          | Some a \<Rightarrow> 1 \<le> a \<and> a \<le> cfg_cache_size cfg)))"

definition os_set_inv :: "int \<Rightarrow> int list \<Rightarrow> bool" where
  "os_set_inv a cache_set = (int (length cache_set) \<le> a \<and> distinct cache_set)"

definition os_tally :: "os_CacheSimulator \<Rightarrow> bool" where
  "os_tally sim =
     ((\<forall>h \<in> set (history sim). h = ''H'' \<or> h = ''M'') \<and>
      os_hits sim = int (length (filter (\<lambda>h. h = ''H'') (history sim))) \<and>
      os_misses sim = int (length (filter (\<lambda>h. h = ''M'') (history sim))))"

definition os_counted :: "os_CacheSimulator \<Rightarrow> os_CacheSimulator \<Rightarrow> bool" where
  "os_counted sim sim' =
     ((history sim' = history sim @ [''H''] \<and> os_hits sim' = os_hits sim + 1 \<and>
       os_misses sim' = os_misses sim \<or>
       history sim' = history sim @ [''M''] \<and> os_hits sim' = os_hits sim \<and>
       os_misses sim' = os_misses sim + 1) \<and>
      sequence sim' = sequence sim \<and> os_mapping sim' = os_mapping sim \<and>
      os_cache_size sim' = os_cache_size sim \<and> os_associativity sim' = os_associativity sim \<and>
      num_sets sim' = num_sets sim \<and> length (cache_sets sim') = length (cache_sets sim))"

definition os_invalid_geometry :: "os_config \<Rightarrow> bool" where
  "os_invalid_geometry cfg =
     (cfg_cache_size cfg \<le> 0 \<or>
      cfg_mapping cfg = SET_ASSOCIATIVE \<and>
        (case cfg_associativity cfg of
           None \<Rightarrow> True
         | Some a \<Rightarrow> a < 1 \<or> cfg_cache_size cfg < a))"

text \<open>The entries stored under index \<open>i\<close> of the callback simulator so far, and the
  entries overwritten there, both in order.\<close>

definition os_inserted_into :: "os_CacheSimulator \<Rightarrow> int \<Rightarrow> int option list" where
  "os_inserted_into sim i = map snd (filter (\<lambda>p. fst p = i) (inserted sim))"

definition os_evicted_from :: "os_CacheSimulator \<Rightarrow> int \<Rightarrow> int option list" where
  "os_evicted_from sim i = map snd (filter (\<lambda>p. fst p = i) (evicted sim))"

text \<open>What a slot of the direct-mapped cache holds: nothing, or one entry.\<close>

definition slot_content :: "int option list \<Rightarrow> int \<Rightarrow> int option list" where
  "slot_content c i =
     (if 0 \<le> i \<and> i < int (length c) then
        (case c ! nat i of None \<Rightarrow> [] | Some v \<Rightarrow> [Some v])
      else [])"

text \<open>The entries held under index \<open>i\<close>: the slot of a direct-mapped cache, the whole
  list of a fully associative one (index 0), the set of a set-associative one.\<close>

definition os_resident :: "os_CacheSimulator \<Rightarrow> int \<Rightarrow> int option list" where
  "os_resident sim i =
     (case os_mapping sim of
        DIRECT \<Rightarrow> slot_content (os_cache sim) i
      | FULLY_ASSOCIATIVE \<Rightarrow> (if i = 0 then os_cache sim else [])
      | SET_ASSOCIATIVE \<Rightarrow>
          (if 0 \<le> i \<and> i < int (length (cache_sets sim)) then
             map Some (cache_sets sim ! nat i)
           else []))"

text \<open>The FIFO snapshot \<open>fifo\<close> of a list \<open>cache_set\<close> is the part of it from position
  \<open>k\<close> on, and the entries stored so far are the overwritten ones, then that part, then
  the positions before \<open>k\<close>, which were refilled since the snapshot was taken.\<close>

definition arrival_ok :: "'a list \<Rightarrow> 'a list \<Rightarrow> 'a list \<Rightarrow> 'a list \<Rightarrow> bool" where
  "arrival_ok cache_set fifo ins ev =
     (\<exists>k \<le> length cache_set. fifo = drop k cache_set \<and>
          ins = ev @ drop k cache_set @ take k cache_set)"

text \<open>The invariant of the callback simulator when every eviction is decided by FIFO.\<close>

definition os_fifo_inv :: "os_CacheSimulator \<Rightarrow> bool" where
  "os_fifo_inv sim =
     (case os_mapping sim of
        DIRECT \<Rightarrow>
          (\<forall>i. os_inserted_into sim i = os_evicted_from sim i @ slot_content (os_cache sim) i)
      | FULLY_ASSOCIATIVE \<Rightarrow>
          arrival_ok (os_cache sim) (fifo_queue sim)
            (os_inserted_into sim 0) (os_evicted_from sim 0) \<and>
          (\<forall>i. i \<noteq> 0 \<longrightarrow> os_inserted_into sim i = [] \<and> os_evicted_from sim i = [])
      | SET_ASSOCIATIVE \<Rightarrow>
          (\<forall>s < length (cache_sets sim).
             \<exists>q ins ev. fifo_queues sim (int s) = Some q \<and>
               os_inserted_into sim (int s) = map Some ins \<and>
               os_evicted_from sim (int s) = map Some ev \<and>
               arrival_ok (cache_sets sim ! s) q ins ev) \<and>
          (\<forall>i. \<not> (0 \<le> i \<and> i < int (length (cache_sets sim))) \<longrightarrow>
               os_inserted_into sim i = [] \<and> os_evicted_from sim i = []))"



section \<open>Basic facts about the fixed-policy simulator\<close>

lemma find_block_None: "find_block s t = None \<longleftrightarrow> t \<notin> tag ` set (blocks s)"
  by (auto simp: find_block_def find_None_iff)

lemma find_block_Some: "find_block s t = Some b \<Longrightarrow> b \<in> set (blocks s) \<and> tag b = t"
  by (auto simp: find_block_def find_Some_iff)

lemma py_index_in_range: "0 \<le> k \<Longrightarrow> k < int (length xs) \<Longrightarrow> py_index xs k = Inr (nat k)"
  by (simp add: py_index_def)

lemma py_index_bound: "py_index xs k = Inr i \<Longrightarrow> i < length xs"
  by (auto simp: py_index_def split: if_splits)

lemma access_set_total: "1 \<le> associativity s \<Longrightarrow> \<exists>r. access_set p s a = Inr r"
  unfolding access_set_def is_full_def apply_fifo_policy_def remove_block_def pop0_def
  by (auto split: option.splits list.splits)

lemma access_set_facts:
  assumes "access_set p s a = Inr (s', st, v)"
  shows "associativity s' = associativity s" and "st = ''HIT'' \<or> st = ''MISS''"
  using assms
  unfolding access_set_def is_full_def apply_fifo_policy_def remove_block_def pop0_def
    add_block_def apply_lru_policy_def
  by (auto split: option.splits list.splits if_splits)

lemma get_set_index_ok:
  assumes "geometry_ok c"
  shows "\<exists>k. get_set_index c a = Inr k \<and> 0 \<le> k \<and> k < int (length (sets c))"
  using assms unfolding geometry_ok_def get_set_index_def py_mod_def
  by auto

lemma access_total:
  assumes "geometry_ok (cache sim)"
  shows "\<exists>sim' ev. access sim a = Inr (sim', ev)"
proof -
  from get_set_index_ok[OF assms] obtain k where
    k: "get_set_index (cache sim) a = Inr k" "0 \<le> k" "k < int (length (sets (cache sim)))"
    by blast
  then have pi: "py_index (sets (cache sim)) k = Inr (nat k)" by (simp add: py_index_in_range)
  from k have "sets (cache sim) ! nat k \<in> set (sets (cache sim))" by simp
  with assms have "1 \<le> associativity (sets (cache sim) ! nat k)" unfolding geometry_ok_def by blast
  from access_set_total[OF this] obtain r where
    "access_set (replacement_policy (config sim)) (sets (cache sim) ! nat k) a = Inr r" by blast
  then show ?thesis using k(1) pi by (cases r) (simp add: access_def)
qed

lemma access_facts:
  assumes "access sim a = Inr (sim', ev)"
  shows "config sim' = config sim"
    and "c_mapping (cache sim') = c_mapping (cache sim)"
    and "c_cache_size (cache sim') = c_cache_size (cache sim)"
    and "length (sets (cache sim')) = length (sets (cache sim))"
    and "ev_addr ev = a"
    and "ev_status ev = ''HIT'' \<or> ev_status ev = ''MISS''"
    and "access_log sim' = access_log sim @ [(a, ev_status ev)]"
    and "hits sim' = hits sim + (if ev_status ev = ''HIT'' then 1 else 0)"
    and "misses sim' = misses sim + (if ev_status ev = ''HIT'' then 0 else 1)"
    and "ev_set ev < length (sets (cache sim))"
    and "\<exists>s'. access_set (replacement_policy (config sim)) (sets (cache sim) ! ev_set ev) a
              = Inr (s', ev_status ev, ev_victim ev) \<and>
            sets (cache sim') = (sets (cache sim))[ev_set ev := s']"
  using assms unfolding access_def
  by (auto split: sum.splits prod.splits dest: access_set_facts py_index_bound)

lemma access_geometry:
  assumes "access sim a = Inr (sim', ev)" "geometry_ok (cache sim)"
  shows "geometry_ok (cache sim')"
proof -
  from access_facts(11)[OF assms(1)] obtain s' where
    s': "access_set (replacement_policy (config sim)) (sets (cache sim) ! ev_set ev) a
              = Inr (s', ev_status ev, ev_victim ev)"
    "sets (cache sim') = (sets (cache sim))[ev_set ev := s']" by blast
  have i: "ev_set ev < length (sets (cache sim))" by (rule access_facts(10)[OF assms(1)])
  have a: "associativity s' = associativity (sets (cache sim) ! ev_set ev)"
    by (rule access_set_facts(1)[OF s'(1)])
  have "1 \<le> associativity s'" using assms(2) i a unfolding geometry_ok_def by simp
  then have all: "\<forall>s \<in> set (sets (cache sim')). 1 \<le> associativity s"
    using assms(2) s'(2) unfolding geometry_ok_def
    by (auto dest!: set_update_subset_insert[THEN subsetD])
  show ?thesis
    using assms(2) all access_facts(2,3,4)[OF assms(1)]
    unfolding geometry_ok_def by auto
qed

lemma run_loop_total:
  "geometry_ok (cache sim) \<Longrightarrow> \<exists>sim' evs. run_loop sim as = Inr (sim', evs)"
proof (induction as arbitrary: sim)
  case Nil
  then show ?case by simp
next
  case (Cons a as)
  from access_total[OF Cons.prems] obtain sim1 ev where a: "access sim a = Inr (sim1, ev)" by blast
  from access_geometry[OF a Cons.prems] have "geometry_ok (cache sim1)" .
  from Cons.IH[OF this] obtain sim2 evs where "run_loop sim1 as = Inr (sim2, evs)" by blast
  with a show ?case by simp
qed

lemma run_loop_facts:
  "run_loop sim as = Inr (sim', evs) \<Longrightarrow>
     length evs = length as \<and>
     map ev_addr evs = as \<and>
     access_log sim' = access_log sim @ map (\<lambda>e. (ev_addr e, ev_status e)) evs \<and>
     (\<forall>e \<in> set evs. ev_status e = ''HIT'' \<or> ev_status e = ''MISS'') \<and>
     hits sim' = hits sim + int (length (filter (\<lambda>e. ev_status e = ''HIT'') evs)) \<and>
     misses sim' = misses sim + int (length (filter (\<lambda>e. ev_status e = ''MISS'') evs)) \<and>
     config sim' = config sim \<and>
     length (sets (cache sim')) = length (sets (cache sim))"
proof (induction as arbitrary: sim evs)
  case Nil
  then show ?case by simp
next
  case (Cons a as)
  from Cons.prems obtain sim1 ev evs1 where
    a: "access sim a = Inr (sim1, ev)" and r: "run_loop sim1 as = Inr (sim', evs1)"
    and e: "evs = ev # evs1"
    by (auto split: sum.splits prod.splits)
  note f = access_facts[OF a]
  note ih = Cons.IH[OF r]
  show ?case using f(1,4,5,6,7,8,9) ih unfolding e by auto
qed

lemma geometry_ok_init: "valid_geometry cfg \<Longrightarrow> geometry_ok (cache (CacheSimulator_init cfg))"
  unfolding valid_geometry_def geometry_ok_def CacheSimulator_init_def Cache_init_def
    CacheSet_init_def
  by auto


section \<open>Invariant of the sets and FIFO order in the fixed-policy simulator\<close>

lemma lru_blocks_length [simp]: "length (apply_lru_policy_blocks bs t) = length bs"
  by (induction bs) auto

lemma lru_blocks_set [simp]: "set (apply_lru_policy_blocks bs t) = set bs"
  by (induction bs) auto

lemma lru_blocks_distinct [simp]:
  "distinct (map tag (apply_lru_policy_blocks bs t)) = distinct (map tag bs)"
  by (induction bs) auto

lemma access_set_inv:
  assumes "p = ''FIFO'' \<or> p = ''LRU''" "set_inv s" "access_set p s a = Inr (s', st, v)"
  shows "set_inv s'"
  using assms
  unfolding access_set_def set_inv_def is_full_def apply_fifo_policy_def remove_block_def
    pop0_def add_block_def apply_lru_policy_def
  by (auto split: option.splits list.splits if_splits simp: find_block_None)

lemma access_inv:
  assumes p: "replacement_policy (config sim) = ''FIFO'' \<or> replacement_policy (config sim) = ''LRU''"
    and inv: "\<forall>s \<in> set (sets (cache sim)). set_inv s"
    and a: "access sim a = Inr (sim', ev)"
  shows "\<forall>s \<in> set (sets (cache sim')). set_inv s"
proof -
  from access_facts(11)[OF a] obtain s' where
    s': "access_set (replacement_policy (config sim)) (sets (cache sim) ! ev_set ev) a
              = Inr (s', ev_status ev, ev_victim ev)"
    "sets (cache sim') = (sets (cache sim))[ev_set ev := s']" by blast
  have i: "ev_set ev < length (sets (cache sim))" by (rule access_facts(10)[OF a])
  with inv have "set_inv (sets (cache sim) ! ev_set ev)" by simp
  from access_set_inv[OF p this s'(1)] have "set_inv s'" .
  then show ?thesis using inv s'(2)
    by (auto dest!: set_update_subset_insert[THEN subsetD])
qed

lemma run_loop_inv:
  assumes "replacement_policy (config sim) = ''FIFO'' \<or> replacement_policy (config sim) = ''LRU''"
    and "\<forall>s \<in> set (sets (cache sim)). set_inv s"
    and "run_loop sim as = Inr (sim', evs)"
  shows "\<forall>s \<in> set (sets (cache sim')). set_inv s"
  using assms
proof (induction as arbitrary: sim evs)
  case Nil
  then show ?case by simp
next
  case (Cons a as)
  from Cons.prems(3) obtain sim1 ev evs1 where
    a: "access sim a = Inr (sim1, ev)" and r: "run_loop sim1 as = Inr (sim', evs1)"
    by (auto split: sum.splits prod.splits)
  have c: "config sim1 = config sim" by (rule access_facts(1)[OF a])
  show ?case
    by (rule Cons.IH[OF _ access_inv[OF Cons.prems(1,2) a] r]) (simp add: c Cons.prems(1))
qed

lemma init_inv: "valid_geometry cfg \<Longrightarrow> \<forall>s \<in> set (sets (cache (CacheSimulator_init cfg))). set_inv s"
  unfolding valid_geometry_def set_inv_def CacheSimulator_init_def Cache_init_def CacheSet_init_def
  by auto

lemma access_set_fifo:
  assumes "access_set ''FIFO'' s a = Inr (s', st, v)"
  shows "map tag (blocks s) @ (if st = ''MISS'' then [a] else []) =
         (case v of None \<Rightarrow> [] | Some b \<Rightarrow> [tag b]) @ map tag (blocks s')"
  using assms
  unfolding access_set_def is_full_def apply_fifo_policy_def remove_block_def
    pop0_def add_block_def
  by (auto split: option.splits list.splits if_splits)

lemma access_fifo:
  assumes p: "replacement_policy (config sim) = ''FIFO''"
    and a: "access sim a = Inr (sim', ev)"
    and i: "i < length (sets (cache sim))"
  shows "resident sim i @ inserted_into [ev] i = evicted_from [ev] i @ resident sim' i"
proof -
  from access_facts(11)[OF a] p obtain s' where
    s': "access_set ''FIFO'' (sets (cache sim) ! ev_set ev) a
              = Inr (s', ev_status ev, ev_victim ev)"
    "sets (cache sim') = (sets (cache sim))[ev_set ev := s']" by auto
  note f = access_set_fifo[OF s'(1)]
  have ea: "ev_addr ev = a" by (rule access_facts(5)[OF a])
  have st: "ev_status ev = ''HIT'' \<or> ev_status ev = ''MISS''" by (rule access_facts(6)[OF a])
  show ?thesis
  proof (cases "ev_set ev = i")
    case True
    then show ?thesis using f i s'(2) ea
      by (auto simp: resident_def inserted_into_def evicted_from_def List.map_filter_simps
          split: option.splits)
  next
    case False
    then show ?thesis using s'(2)
      by (auto simp: resident_def inserted_into_def evicted_from_def List.map_filter_simps)
  qed
qed

lemma inserted_Cons: "inserted_into (e # es) i = inserted_into [e] i @ inserted_into es i"
  by (simp add: inserted_into_def)

lemma evicted_Cons: "evicted_from (e # es) i = evicted_from [e] i @ evicted_from es i"
  by (simp add: evicted_from_def List.map_filter_simps split: option.splits)

lemma run_loop_fifo:
  assumes "replacement_policy (config sim) = ''FIFO''"
    and "run_loop sim as = Inr (sim', evs)"
    and "i < length (sets (cache sim))"
  shows "resident sim i @ inserted_into evs i = evicted_from evs i @ resident sim' i"
  using assms
proof (induction as arbitrary: sim evs)
  case Nil
  then show ?case by (simp add: inserted_into_def evicted_from_def List.map_filter_simps)
next
  case (Cons a as)
  from Cons.prems(2) obtain sim1 ev evs1 where
    a: "access sim a = Inr (sim1, ev)" and r: "run_loop sim1 as = Inr (sim', evs1)"
    and e: "evs = ev # evs1"
    by (auto split: sum.splits prod.splits)
  have c: "config sim1 = config sim" by (rule access_facts(1)[OF a])
  have l: "length (sets (cache sim1)) = length (sets (cache sim))" by (rule access_facts(4)[OF a])
  have ih: "resident sim1 i @ inserted_into evs1 i = evicted_from evs1 i @ resident sim' i"
    by (rule Cons.IH[OF _ r]) (simp_all add: c l Cons.prems)
  have st: "resident sim i @ inserted_into [ev] i = evicted_from [ev] i @ resident sim1 i"
    by (rule access_fifo[OF Cons.prems(1) a Cons.prems(3)])
  have "resident sim i @ inserted_into evs i
        = (resident sim i @ inserted_into [ev] i) @ inserted_into evs1 i"
    unfolding e by (subst inserted_Cons) simp
  also have "\<dots> = evicted_from [ev] i @ (resident sim1 i @ inserted_into evs1 i)"
    unfolding st by simp
  also have "\<dots> = (evicted_from [ev] i @ evicted_from evs1 i) @ resident sim' i"
    unfolding ih by simp
  also have "\<dots> = evicted_from evs i @ resident sim' i"
    unfolding e by (subst (2) evicted_Cons) simp
  finally show ?case .
qed


section \<open>The callback simulator under one fixed policy\<close>

lemma list_index_nth: "distinct xs \<Longrightarrow> k < length xs \<Longrightarrow> list_index xs (xs ! k) = Inr k"
proof (induction xs arbitrary: k)
  case Nil
  then show ?case by simp
next
  case (Cons x xs)
  show ?case
  proof (cases k)
    case 0
    then show ?thesis by simp
  next
    case (Suc j)
    with Cons.prems have "xs ! j \<in> set xs" "x \<notin> set xs" by auto
    then have "x \<noteq> xs ! j" by auto
    with Suc Cons show ?thesis by simp
  qed
qed

lemma list_index_bound: "list_index xs v = Inr k \<Longrightarrow> k < length xs"
  by (induction xs arbitrary: k) (auto split: if_splits sum.splits)

lemma pop0_drop: "k < length xs \<Longrightarrow> pop0 (drop k xs) = Inr (xs ! k, drop (Suc k) xs)"
  by (simp add: pop0_def Cons_nth_drop_Suc[symmetric])

lemma evict_queue:
  assumes d: "distinct cs" and ne: "cs \<noteq> []"
    and q: "\<exists>k. queue = drop k cs"
  shows "\<exists>i. pop0 (if queue = [] then queue @ cs else queue) = Inr (cs ! i, drop (Suc i) cs) \<and>
             i < length cs \<and> list_index cs (cs ! i) = Inr i"
proof (cases "queue = []")
  case True
  with ne have "pop0 (if queue = [] then queue @ cs else queue) = Inr (cs ! 0, drop (Suc 0) cs)"
    using pop0_drop[of 0 cs] by simp
  moreover have "list_index cs (cs ! 0) = Inr 0" using ne by (cases cs) auto
  ultimately show ?thesis using ne by blast
next
  case False
  from q obtain k where k: "queue = drop k cs" by blast
  with False have kl: "k < length cs" by simp
  then show ?thesis using False k pop0_drop[OF kl] list_index_nth[OF d kl] by auto
qed

lemma eviction_index_ok:
  assumes q: "queue_ok p cap cs fifo lru" and d: "distinct cs"
    and full: "int (length cs) = cap" and pos: "0 < cap"
  shows "\<exists>i fifo' lru'. os_get_eviction_index r p cs fifo lru = Inr (int i, fifo', lru') \<and>
           i < length cs \<and> queue_ok p cap (cs[i := a]) fifo' lru'"
proof -
  from full pos have ne: "cs \<noteq> []" by auto
  show ?thesis
  proof (cases p)
    case RANDOM
    have "r mod length cs < length cs" using ne by simp
    moreover have "randint r 0 (int (length cs) - 1) = Inr (int (r mod length cs))"
      using ne by (simp add: randint_def)
    ultimately show ?thesis using q RANDOM
      by (auto simp: os_get_eviction_index_def queue_ok_def)
  next
    case FIFO
    with q have l: "lru = []" and f: "\<exists>k. fifo = drop k cs" by (auto simp: queue_ok_def)
    from evict_queue[OF d ne f] obtain i where
      i: "pop0 (if fifo = [] then fifo @ cs else fifo) = Inr (cs ! i, drop (Suc i) cs)"
      "i < length cs" "list_index cs (cs ! i) = Inr i" by blast
    have "drop (Suc i) cs = drop (Suc i) (cs[i := a])" by (simp add: drop_update_cancel)
    then have "\<exists>k. drop (Suc i) cs = drop k (cs[i := a])" by blast
    then have "queue_ok FIFO cap (cs[i := a]) (drop (Suc i) cs) []"
      using full unfolding queue_ok_def by auto
    then show ?thesis using i FIFO l
      by (auto simp: os_get_eviction_index_def)
  next
    case LRU
    with q have l: "fifo = []" and f: "\<exists>k. lru = drop k cs" by (auto simp: queue_ok_def)
    from evict_queue[OF d ne f] obtain i where
      i: "pop0 (if lru = [] then lru @ cs else lru) = Inr (cs ! i, drop (Suc i) cs)"
      "i < length cs" "list_index cs (cs ! i) = Inr i" by blast
    have "drop (Suc i) cs = drop (Suc i) (cs[i := a])" by (simp add: drop_update_cancel)
    then have "\<exists>k. drop (Suc i) cs = drop k (cs[i := a])" by blast
    then have "queue_ok LRU cap (cs[i := a]) [] (drop (Suc i) cs)"
      using full unfolding queue_ok_def by auto
    then show ?thesis using i LRU l
      by (auto simp: os_get_eviction_index_def)
  qed
qed

lemma queue_ok_append:
  assumes "queue_ok p cap cs fifo lru" "int (length cs) < cap"
  shows "queue_ok p cap (cs @ [a]) fifo lru"
  using assms unfolding queue_ok_def
  by (cases p) (auto intro: exI[of _ "Suc (length cs)"])

lemma distinct_update_new: "distinct xs \<Longrightarrow> a \<notin> set xs \<Longrightarrow> distinct (xs[i := a])"
  by (rule distinct_list_update) auto

lemma os_direct_total:
  assumes "0 < os_cache_size sim"
  shows "\<exists>sim'. os_direct_mapping sim a = Inr sim'"
proof -
  let ?c = "(if int (length (os_cache sim)) < os_cache_size sim then
               os_cache sim @ replicate (nat (os_cache_size sim - int (length (os_cache sim)))) None
             else os_cache sim)"
  have l: "os_cache_size sim \<le> int (length ?c)" by auto
  have m: "0 \<le> a mod os_cache_size sim" "a mod os_cache_size sim < os_cache_size sim"
    using assms by auto
  then have "py_index ?c (a mod os_cache_size sim) = Inr (nat (a mod os_cache_size sim))"
    using l by (intro py_index_in_range) linarith+
  then show ?thesis using assms
    unfolding os_direct_mapping_def Let_def py_mod_def by auto
qed

lemma os_fully_total:
  assumes "os_inv p sim" "os_mapping sim = FULLY_ASSOCIATIVE"
    "ask_policy_callback env (asked sim) = p"
  shows "\<exists>sim'. os_fully_associative env sim a = Inr sim' \<and> os_inv p sim'"
proof -
  from assms(1,2) have inv: "0 < os_cache_size sim" "distinct (os_cache sim)"
    "int (length (os_cache sim)) \<le> os_cache_size sim"
    "queue_ok p (os_cache_size sim) (os_cache sim) (fifo_queue sim) (lru_stack sim)"
    by (auto simp: os_inv_def)
  show ?thesis
  proof (cases "Some a \<in> set (os_cache sim)")
    case True
    then show ?thesis using assms(1,2) by (auto simp: os_fully_associative_def os_inv_def)
  next
    case False
    show ?thesis
    proof (cases "int (length (os_cache sim)) < os_cache_size sim")
      case True
      then show ?thesis using False inv assms(2) queue_ok_append[OF inv(4) True]
        by (auto simp: os_fully_associative_def os_inv_def)
    next
      case nf: False
      with inv(3) have full: "int (length (os_cache sim)) = os_cache_size sim" by simp
      from eviction_index_ok[OF inv(4) inv(2) full inv(1)] obtain i fifo' lru' where
        e: "os_get_eviction_index (random_source env (asked sim)) p (os_cache sim)
              (fifo_queue sim) (lru_stack sim) = Inr (int i, fifo', lru')"
        "i < length (os_cache sim)"
        "queue_ok p (os_cache_size sim) ((os_cache sim)[i := Some a]) fifo' lru'" by blast
      have pi: "py_index (os_cache sim) (int i) = Inr i" using e(2) by (simp add: py_index_def)
      show ?thesis using False nf e pi inv assms(2,3) distinct_update_new[OF inv(2) False]
        by (auto simp: os_fully_associative_def os_inv_def)
    qed
  qed
qed

lemma os_inv_counters:
  "os_inv p (sim\<lparr>os_hits := h, history := hs\<rparr>) = os_inv p sim"
  by (cases "os_mapping sim") (simp_all add: os_inv_def)

lemma os_set_total:
  assumes inv: "os_inv p sim" and m: "os_mapping sim = SET_ASSOCIATIVE"
    and ask: "ask_policy_callback env (asked sim) = p"
  shows "\<exists>sim'. os_set_associative env sim address = Inr sim' \<and> os_inv p sim'"
proof -
  from inv m obtain a where
    n: "0 < num_sets sim" "num_sets sim = int (length (cache_sets sim))"
    and a: "os_associativity sim = Some a" "1 \<le> a"
    and each: "\<forall>s < length (cache_sets sim).
                distinct (cache_sets sim ! s) \<and> int (length (cache_sets sim ! s)) \<le> a \<and>
                (\<exists>q l. fifo_queues sim (int s) = Some q \<and> lru_stacks sim (int s) = Some l \<and>
                       queue_ok p a (cache_sets sim ! s) q l)"
    by (auto simp: os_inv_def)
  define si where "si = address mod num_sets sim"
  define s where "s = nat si"
  have si: "0 \<le> si" "si < num_sets sim" using n(1) by (auto simp: si_def)
  then have sl: "s < length (cache_sets sim)" and s_si: "int s = si" using n(2) by (auto simp: s_def)
  have pm: "py_mod address (num_sets sim) = Inr si" using n(1) by (simp add: py_mod_def si_def)
  have pi: "py_index (cache_sets sim) si = Inr s"
    using si n(2) by (simp add: py_index_in_range s_def)
  define cs where "cs = cache_sets sim ! s"
  from each sl obtain q l where
    c: "distinct cs" "int (length cs) \<le> a"
    and ql: "fifo_queues sim si = Some q" "lru_stacks sim si = Some l" "queue_ok p a cs q l"
    unfolding cs_def s_si[symmetric] by blast
  show ?thesis
  proof (cases "address \<in> set cs")
    case True
    have "os_set_associative env sim address =
            Inr (sim\<lparr>os_hits := os_hits sim + 1, history := history sim @ [''H'']\<rparr>)"
      using True pm pi by (simp add: os_set_associative_def cs_def)
    moreover have "os_inv p (sim\<lparr>os_hits := os_hits sim + 1, history := history sim @ [''H'']\<rparr>)"
      by (simp add: os_inv_counters inv)
    ultimately show ?thesis by blast
  next
    case False
    show ?thesis
    proof (cases "int (length cs) < a")
      case True
      let ?sim' = "sim\<lparr>os_misses := os_misses sim + 1, history := history sim @ [''M''],
                       cache_sets := (cache_sets sim)[s := cs @ [address]],
                       inserted := inserted sim @ [(si, Some address)]\<rparr>"
      have r: "os_set_associative env sim address = Inr ?sim'"
        using False True pm pi a by (simp add: os_set_associative_def cs_def)
      have "\<forall>t < length (cache_sets sim).
                distinct ((cache_sets sim)[s := cs @ [address]] ! t) \<and>
                int (length ((cache_sets sim)[s := cs @ [address]] ! t)) \<le> a \<and>
                (\<exists>q l. fifo_queues sim (int t) = Some q \<and> lru_stacks sim (int t) = Some l \<and>
                       queue_ok p a ((cache_sets sim)[s := cs @ [address]] ! t) q l)"
      proof (intro allI impI)
        fix t assume t: "t < length (cache_sets sim)"
        show "distinct ((cache_sets sim)[s := cs @ [address]] ! t) \<and>
                int (length ((cache_sets sim)[s := cs @ [address]] ! t)) \<le> a \<and>
                (\<exists>q l. fifo_queues sim (int t) = Some q \<and> lru_stacks sim (int t) = Some l \<and>
                       queue_ok p a ((cache_sets sim)[s := cs @ [address]] ! t) q l)"
        proof (cases "t = s")
          case True
          then show ?thesis
            using c False \<open>int (length cs) < a\<close> ql s_si sl queue_ok_append[OF ql(3) \<open>int (length cs) < a\<close>]
            by auto
        next
          case False
          then show ?thesis using each t by simp
        qed
      qed
      then have "os_inv p ?sim'" using m n a by (auto simp: os_inv_def)
      with r show ?thesis by blast
    next
      case nf: False
      with c(2) have full: "int (length cs) = a" by simp
      from a(2) have pos: "0 < a" by simp
      from eviction_index_ok[OF ql(3) c(1) full pos] obtain i fifo' lru' where
        e: "os_get_eviction_index (random_source env (asked sim)) p cs q l = Inr (int i, fifo', lru')"
        "i < length cs" "queue_ok p a (cs[i := address]) fifo' lru'" by blast
      have pi2: "py_index cs (int i) = Inr i" using e(2) by (simp add: py_index_def)
      let ?sim' = "sim\<lparr>os_misses := os_misses sim + 1, history := history sim @ [''M''],
                       cache_sets := (cache_sets sim)[s := cs[i := address]],
                       fifo_queues := (fifo_queues sim)(si \<mapsto> fifo'),
                       lru_stacks := (lru_stacks sim)(si \<mapsto> lru'),
                       asked := Suc (asked sim),
                       inserted := inserted sim @ [(si, Some address)],
                       evicted := evicted sim @ [(si, Some (cs ! i))]\<rparr>"
      have r: "os_set_associative env sim address = Inr ?sim'"
        using False nf pm pi a ql(1,2) e(1) pi2 ask
        by (simp add: os_set_associative_def cs_def[symmetric])
      have "\<forall>t < length (cache_sets sim).
                distinct ((cache_sets sim)[s := cs[i := address]] ! t) \<and>
                int (length ((cache_sets sim)[s := cs[i := address]] ! t)) \<le> a \<and>
                (\<exists>q l. ((fifo_queues sim)(si \<mapsto> fifo')) (int t) = Some q \<and>
                       ((lru_stacks sim)(si \<mapsto> lru')) (int t) = Some l \<and>
                       queue_ok p a ((cache_sets sim)[s := cs[i := address]] ! t) q l)"
      proof (intro allI impI)
        fix t assume t: "t < length (cache_sets sim)"
        show "distinct ((cache_sets sim)[s := cs[i := address]] ! t) \<and>
                int (length ((cache_sets sim)[s := cs[i := address]] ! t)) \<le> a \<and>
                (\<exists>q l. ((fifo_queues sim)(si \<mapsto> fifo')) (int t) = Some q \<and>
                       ((lru_stacks sim)(si \<mapsto> lru')) (int t) = Some l \<and>
                       queue_ok p a ((cache_sets sim)[s := cs[i := address]] ! t) q l)"
        proof (cases "t = s")
          case True
          then show ?thesis
            using c False e(3) s_si sl distinct_update_new[OF c(1) False] by auto
        next
          case False
          then have "int t \<noteq> si" using s_si by auto
          then show ?thesis using each t False by simp
        qed
      qed
      then have "os_inv p ?sim'" using m n a by (auto simp: os_inv_def)
      with r show ?thesis by blast
    qed
  qed
qed

lemma os_step_total:
  assumes "os_inv p sim" "ask_policy_callback env (asked sim) = p"
  shows "\<exists>sim'. os_step env sim address = Inr sim' \<and> os_inv p sim'"
proof (cases "os_mapping sim")
  case DIRECT
  with assms(1) have pos: "0 < os_cache_size sim" by (simp add: os_inv_def)
  from os_direct_total[OF pos] obtain sim' where
    r: "os_direct_mapping sim address = Inr sim'" by blast
  then have "os_mapping sim' = DIRECT \<and> os_cache_size sim' = os_cache_size sim"
    using DIRECT unfolding os_direct_mapping_def Let_def
    by (auto split: sum.splits if_splits)
  then have "os_inv p sim'" using pos by (simp add: os_inv_def)
  with r DIRECT show ?thesis by (simp add: os_step_def)
next
  case FULLY_ASSOCIATIVE
  with os_fully_total[OF assms(1) FULLY_ASSOCIATIVE assms(2)] show ?thesis
    by (simp add: os_step_def)
next
  case SET_ASSOCIATIVE
  with os_set_total[OF assms(1) SET_ASSOCIATIVE assms(2)] show ?thesis
    by (simp add: os_step_def)
qed

lemma os_run_loop_total:
  assumes "os_inv p sim" "\<forall>k. ask_policy_callback env k = p"
  shows "\<exists>sim'. os_run_loop env sim as = Inr sim' \<and> os_inv p sim'"
  using assms(1)
proof (induction as arbitrary: sim)
  case Nil
  then show ?case by simp
next
  case (Cons a as)
  from os_step_total[OF Cons.prems] assms(2) obtain sim1 where
    s: "os_step env sim a = Inr sim1" "os_inv p sim1" by blast
  from Cons.IH[OF s(2)] s(1) show ?case by simp
qed

lemma os_init_inv:
  assumes "os_valid_geometry cfg"
  shows "\<exists>sim. os_CacheSimulator_init cfg = Inr sim \<and> os_inv p sim \<and>
           sequence sim = cfg_sequence cfg"
proof (cases "cfg_mapping cfg = SET_ASSOCIATIVE")
  case True
  with assms obtain a where a: "cfg_associativity cfg = Some a" "1 \<le> a" "a \<le> cfg_cache_size cfg"
    by (auto simp: os_valid_geometry_def split: option.splits)
  then have d: "1 \<le> cfg_cache_size cfg div a"
    using pos_imp_zdiv_pos_iff[of a "cfg_cache_size cfg"] by linarith
  have q: "queue_ok p a [] [] []" using a(2) by (cases p) (auto simp: queue_ok_def)
  show ?thesis using True a d q
    by (auto simp: os_CacheSimulator_init_def py_floordiv_def os_inv_def)
next
  case False
  have q: "queue_ok p (cfg_cache_size cfg) [] [] []" by (cases p) (auto simp: queue_ok_def)
  show ?thesis using False assms q
    by (cases "cfg_mapping cfg") (auto simp: os_CacheSimulator_init_def os_inv_def os_valid_geometry_def)
qed

lemma os_simulate_total:
  assumes "os_valid_geometry cfg" "\<forall>k. ask_policy_callback env k = p"
  shows "\<exists>r. os_simulate env cfg = Inr r"
proof -
  from os_init_inv[OF assms(1)] obtain sim where
    s: "os_CacheSimulator_init cfg = Inr sim" "os_inv p sim" by blast
  from os_run_loop_total[OF s(2) assms(2)] obtain sim' where
    "os_run_loop env sim (sequence sim) = Inr sim'" by blast
  with s(1) show ?thesis by (simp add: os_simulate_def os_run_def)
qed


section \<open>Counters, random source and set invariant of the callback simulator\<close>

lemma os_direct_facts:
  assumes "os_direct_mapping sim a = Inr sim'"
  shows "os_counted sim sim'"
proof -
  from assms obtain index i where "py_mod a (os_cache_size sim) = Inr index"
    unfolding os_direct_mapping_def Let_def by (simp split: sum.splits)
  then show ?thesis using assms
    unfolding os_direct_mapping_def Let_def os_counted_def
    by (cases "py_index (if int (length (os_cache sim)) < os_cache_size sim then
               os_cache sim @ replicate (nat (os_cache_size sim - int (length (os_cache sim)))) None
             else os_cache sim) index")
       (auto split: if_splits)
qed

lemma os_fully_facts:
  assumes "os_fully_associative env sim a = Inr sim'"
  shows "os_counted sim sim'"
proof (cases "Some a \<in> set (os_cache sim)")
  case True
  then show ?thesis using assms by (auto simp: os_fully_associative_def os_counted_def)
next
  case False
  show ?thesis
  proof (cases "int (length (os_cache sim)) < os_cache_size sim")
    case True
    then show ?thesis using False assms by (auto simp: os_fully_associative_def os_counted_def)
  next
    case nf: False
    from assms False nf obtain k f l where
      e: "os_get_eviction_index (random_source env (asked sim))
                (ask_policy_callback env (asked sim))
                (os_cache sim) (fifo_queue sim) (lru_stack sim) = Inr (k, f, l)"
      by (simp add: os_fully_associative_def split: sum.splits prod.splits)
    with assms False nf obtain i where i: "py_index (os_cache sim) k = Inr i"
      by (simp add: os_fully_associative_def split: sum.splits)
    show ?thesis using assms False nf e i
      by (auto simp: os_fully_associative_def os_counted_def)
  qed
qed

lemma os_set_associative_cases:
  assumes r: "os_set_associative env sim address = Inr sim'"
  obtains (hit) si s where
      "py_mod address (num_sets sim) = Inr si" "py_index (cache_sets sim) si = Inr s"
      "address \<in> set (cache_sets sim ! s)"
      "sim' = sim\<lparr>os_hits := os_hits sim + 1, history := history sim @ [''H'']\<rparr>"
  | (fill) si s a where
      "py_mod address (num_sets sim) = Inr si" "py_index (cache_sets sim) si = Inr s"
      "address \<notin> set (cache_sets sim ! s)" "os_associativity sim = Some a"
      "int (length (cache_sets sim ! s)) < a"
      "sim' = sim\<lparr>os_misses := os_misses sim + 1, history := history sim @ [''M''],
                   cache_sets := (cache_sets sim)[s := cache_sets sim ! s @ [address]],
                   inserted := inserted sim @ [(si, Some address)]\<rparr>"
  | (evict) si s a q l k f' l' i where
      "py_mod address (num_sets sim) = Inr si" "py_index (cache_sets sim) si = Inr s"
      "address \<notin> set (cache_sets sim ! s)" "os_associativity sim = Some a"
      "\<not> int (length (cache_sets sim ! s)) < a"
      "fifo_queues sim si = Some q" "lru_stacks sim si = Some l"
      "os_get_eviction_index (random_source env (asked sim))
         (ask_policy_callback env (asked sim)) (cache_sets sim ! s) q l = Inr (k, f', l')"
      "py_index (cache_sets sim ! s) k = Inr i"
      "sim' = sim\<lparr>os_misses := os_misses sim + 1, history := history sim @ [''M''],
                   cache_sets := (cache_sets sim)[s := (cache_sets sim ! s)[i := address]],
                   fifo_queues := (fifo_queues sim)(si \<mapsto> f'),
                   lru_stacks := (lru_stacks sim)(si \<mapsto> l'),
                   asked := Suc (asked sim),
                   inserted := inserted sim @ [(si, Some address)],
                   evicted := evicted sim @ [(si, Some (cache_sets sim ! s ! i))]\<rparr>"
proof -
  from r obtain si where pm: "py_mod address (num_sets sim) = Inr si"
    unfolding os_set_associative_def by (simp split: sum.splits)
  with r obtain s where pi: "py_index (cache_sets sim) si = Inr s"
    unfolding os_set_associative_def by (simp split: sum.splits)
  note d = os_set_associative_def Let_def
  show thesis
  proof (cases "address \<in> set (cache_sets sim ! s)")
    case True
    with r pm pi have e1: "sim' = sim\<lparr>os_hits := os_hits sim + 1, history := history sim @ [''H'']\<rparr>"
      by (simp add: d)
    show thesis by (rule hit[OF pm pi True e1])
  next
    case False
    with r pm pi obtain a where a: "os_associativity sim = Some a"
      by (simp add: d split: option.splits)
    show thesis
    proof (cases "int (length (cache_sets sim ! s)) < a")
      case True
      with r pm pi False a have e2:
        "sim' = sim\<lparr>os_misses := os_misses sim + 1, history := history sim @ [''M''],
                   cache_sets := (cache_sets sim)[s := cache_sets sim ! s @ [address]],
                   inserted := inserted sim @ [(si, Some address)]\<rparr>"
        by (simp add: d)
      show thesis by (rule fill[OF pm pi False a True e2])
    next
      case nf: False
      with r pm pi False a obtain q where q: "fifo_queues sim si = Some q"
        by (simp add: d split: option.splits)
      with r pm pi False a nf obtain l where l: "lru_stacks sim si = Some l"
        by (simp add: d split: option.splits)
      with r pm pi False a nf q obtain k f' l' where
        e: "os_get_eviction_index (random_source env (asked sim))
              (ask_policy_callback env (asked sim)) (cache_sets sim ! s) q l = Inr (k, f', l')"
        by (simp add: d split: sum.splits prod.splits)
      with r pm pi False a nf q l obtain i where i: "py_index (cache_sets sim ! s) k = Inr i"
        by (simp add: d split: sum.splits)
      with r pm pi False a nf q l e have e3:
        "sim' = sim\<lparr>os_misses := os_misses sim + 1, history := history sim @ [''M''],
                   cache_sets := (cache_sets sim)[s := (cache_sets sim ! s)[i := address]],
                   fifo_queues := (fifo_queues sim)(si \<mapsto> f'),
                   lru_stacks := (lru_stacks sim)(si \<mapsto> l'),
                   asked := Suc (asked sim),
                   inserted := inserted sim @ [(si, Some address)],
                   evicted := evicted sim @ [(si, Some (cache_sets sim ! s ! i))]\<rparr>"
        by (simp add: d)
      show thesis by (rule evict[OF pm pi False a nf q l e i e3])
    qed
  qed
qed

lemma os_set_facts:
  assumes "os_set_associative env sim a = Inr sim'"
  shows "os_counted sim sim'"
  using assms
  by (cases rule: os_set_associative_cases) (simp_all add: os_counted_def)

lemma os_step_facts:
  assumes "os_step env sim a = Inr sim'"
  shows "os_counted sim sim'"
  using assms os_direct_facts[of sim a sim'] os_fully_facts[of env sim a sim']
    os_set_facts[of env sim a sim']
  unfolding os_step_def by (cases "os_mapping sim") simp_all

lemma os_step_tally:
  assumes t: "os_tally sim" and s: "os_step env sim a = Inr sim'"
  shows "os_tally sim' \<and> length (history sim') = Suc (length (history sim)) \<and>
         sequence sim' = sequence sim"
proof -
  from os_step_facts[OF s] have
    c: "history sim' = history sim @ [''H''] \<and> os_hits sim' = os_hits sim + 1 \<and>
          os_misses sim' = os_misses sim \<or>
        history sim' = history sim @ [''M''] \<and> os_hits sim' = os_hits sim \<and>
          os_misses sim' = os_misses sim + 1"
    and q: "sequence sim' = sequence sim"
    unfolding os_counted_def by blast+
  from c show ?thesis
  proof
    assume "history sim' = history sim @ [''H''] \<and> os_hits sim' = os_hits sim + 1 \<and>
          os_misses sim' = os_misses sim"
    then show ?thesis using t q by (simp add: os_tally_def)
  next
    assume "history sim' = history sim @ [''M''] \<and> os_hits sim' = os_hits sim \<and>
          os_misses sim' = os_misses sim + 1"
    then show ?thesis using t q by (simp add: os_tally_def)
  qed
qed

lemma os_run_loop_tally:
  "os_tally sim \<Longrightarrow> os_run_loop env sim as = Inr sim' \<Longrightarrow>
     os_tally sim' \<and> length (history sim') = length (history sim) + length as \<and>
     sequence sim' = sequence sim"
proof (induction as arbitrary: sim)
  case Nil
  then show ?case by simp
next
  case (Cons a as)
  from Cons.prems(2) obtain sim1 where
    s: "os_step env sim a = Inr sim1" and r: "os_run_loop env sim1 as = Inr sim'"
    by (auto split: sum.splits)
  note st = os_step_tally[OF Cons.prems(1) s]
  from st have t1: "os_tally sim1" by blast
  from Cons.IH[OF t1 r] st show ?case by simp
qed

lemma tally_total:
  "\<forall>h \<in> set hs. h = ''H'' \<or> h = ''M'' \<Longrightarrow>
     length (filter (\<lambda>h. h = ''H'') hs) + length (filter (\<lambda>h. h = ''M'') hs) = length hs"
  by (induction hs) auto

lemma eviction_index_indep:
  "p \<noteq> RANDOM \<Longrightarrow> os_get_eviction_index r1 p cs f l = os_get_eviction_index r2 p cs f l"
  by (cases p) (simp_all add: os_get_eviction_index_def)

lemma os_fully_indep:
  assumes "ask_policy_callback env1 = ask_policy_callback env2"
    "ask_policy_callback env1 (asked sim) \<noteq> RANDOM"
  shows "os_fully_associative env1 sim a = os_fully_associative env2 sim a"
proof -
  have "os_get_eviction_index (random_source env1 (asked sim))
          (ask_policy_callback env1 (asked sim)) (os_cache sim) (fifo_queue sim) (lru_stack sim)
      = os_get_eviction_index (random_source env2 (asked sim))
          (ask_policy_callback env2 (asked sim)) (os_cache sim) (fifo_queue sim) (lru_stack sim)"
    using eviction_index_indep[OF assms(2)[unfolded assms(1)]] by (simp add: assms(1))
  then show ?thesis unfolding os_fully_associative_def by (simp cong: if_cong)
qed

lemma os_set_indep:
  assumes "ask_policy_callback env1 = ask_policy_callback env2"
    "ask_policy_callback env1 (asked sim) \<noteq> RANDOM"
  shows "os_set_associative env1 sim a = os_set_associative env2 sim a"
proof -
  have eq: "os_get_eviction_index (random_source env1 (asked sim))
          (ask_policy_callback env1 (asked sim)) cs q l
      = os_get_eviction_index (random_source env2 (asked sim))
          (ask_policy_callback env2 (asked sim)) cs q l" for cs q l :: "int list"
    using eviction_index_indep[OF assms(2)[unfolded assms(1)]] by (simp add: assms(1))
  show ?thesis unfolding os_set_associative_def eq by (rule refl)
qed

lemma os_step_indep:
  assumes "ask_policy_callback env1 = ask_policy_callback env2"
    "ask_policy_callback env1 (asked sim) \<noteq> RANDOM"
  shows "os_step env1 sim a = os_step env2 sim a"
  using os_fully_indep[OF assms] os_set_indep[OF assms]
  unfolding os_step_def by (cases "os_mapping sim") simp_all

lemma os_run_loop_indep:
  assumes "ask_policy_callback env1 = ask_policy_callback env2"
    "\<forall>k. ask_policy_callback env1 k \<noteq> RANDOM"
  shows "os_run_loop env1 sim as = os_run_loop env2 sim as"
proof (induction as arbitrary: sim)
  case Nil
  then show ?case by simp
next
  case (Cons a as)
  have "os_step env1 sim a = os_step env2 sim a"
    using assms by (intro os_step_indep) auto
  then show ?case using Cons.IH by (simp split: sum.splits)
qed

lemma os_set_associative_inv:
  assumes a: "os_associativity sim = Some a"
    and inv: "\<forall>cs \<in> set (cache_sets sim). os_set_inv a cs"
    and r: "os_set_associative env sim address = Inr sim'"
  shows "\<forall>cs \<in> set (cache_sets sim'). os_set_inv a cs"
proof -
  have upd: "os_set_inv a c' \<Longrightarrow> \<forall>x \<in> set ((cache_sets sim)[s := c']). os_set_inv a x" for c' s
    using inv by (auto dest!: set_update_subset_insert[THEN subsetD])
  from r show ?thesis
  proof (cases rule: os_set_associative_cases)
    case (hit si s)
    then show ?thesis using inv by simp
  next
    case (fill si s a')
    have sl: "s < length (cache_sets sim)" by (rule py_index_bound[OF fill(2)])
    then have "os_set_inv a (cache_sets sim ! s)" using inv by simp
    then have "os_set_inv a (cache_sets sim ! s @ [address])"
      using fill(3,4,5) a by (simp add: os_set_inv_def)
    from upd[OF this] show ?thesis using fill(6) by simp
  next
    case (evict si s a' q l k f' l' i)
    have sl: "s < length (cache_sets sim)" by (rule py_index_bound[OF evict(2)])
    then have "os_set_inv a (cache_sets sim ! s)" using inv by simp
    then have "os_set_inv a ((cache_sets sim ! s)[i := address])"
      using evict(3) by (simp add: os_set_inv_def distinct_update_new)
    from upd[OF this] show ?thesis using evict(10) by simp
  qed
qed


section \<open>Runs under an invalid geometry\<close>

lemma eviction_empty_fails:
  "\<exists>e. os_get_eviction_index r p [] [] [] = Inl e \<and> (e = ValueError \<or> e = IndexError)"
  by (cases p) (simp_all add: os_get_eviction_index_def randint_def pop0_def)

lemma py_index_Nil: "py_index [] i = Inl IndexError"
  by (simp add: py_index_def)

lemma os_direct_fails:
  assumes "os_cache_size sim \<le> 0" "os_cache sim = []"
  shows "\<exists>e. os_direct_mapping sim a = Inl e \<and> (e = ZeroDivisionError \<or> e = IndexError)"
  using assms unfolding os_direct_mapping_def Let_def py_mod_def
  by (simp add: py_index_Nil)

lemma os_fully_fails:
  assumes "os_cache_size sim \<le> 0" "os_cache sim = []" "fifo_queue sim = []" "lru_stack sim = []"
  shows "\<exists>e. os_fully_associative env sim a = Inl e \<and> (e = ValueError \<or> e = IndexError)"
proof -
  from eviction_empty_fails obtain e where
    "os_get_eviction_index (random_source env (asked sim)) (ask_policy_callback env (asked sim))
       ([] :: int option list) [] [] = Inl e" "e = ValueError \<or> e = IndexError" by blast
  then show ?thesis using assms unfolding os_fully_associative_def by simp
qed

lemma os_set_fails:
  assumes n: "num_sets sim = cs div a0" and a: "os_associativity sim = Some a0"
    and bad: "cs \<le> 0 \<or> a0 < 1 \<or> cs < a0"
    and c: "cache_sets sim = replicate (nat (num_sets sim)) []"
    and f: "fifo_queues sim = (\<lambda>i. if 0 \<le> i \<and> i < num_sets sim then Some [] else None)"
    and l: "lru_stacks sim = (\<lambda>i. if 0 \<le> i \<and> i < num_sets sim then Some [] else None)"
  shows "\<exists>e. os_set_associative env sim address = Inl e \<and>
             (e = ZeroDivisionError \<or> e = IndexError \<or> e = ValueError)"
proof -
  consider "num_sets sim = 0" | "num_sets sim < 0" | "0 < num_sets sim" by linarith
  then show ?thesis
  proof cases
    case 1
    then show ?thesis unfolding os_set_associative_def py_mod_def by simp
  next
    case 2
    then show ?thesis using c unfolding os_set_associative_def py_mod_def
      by (simp add: py_index_Nil)
  next
    case 3
    define si where "si = address mod num_sets sim"
    have si: "0 \<le> si" "si < num_sets sim" using 3 by (auto simp: si_def)
    have pm: "py_mod address (num_sets sim) = Inr si" using 3 by (simp add: py_mod_def si_def)
    have pi: "py_index (cache_sets sim) si = Inr (nat si)"
      using si c by (simp add: py_index_def)
    have e: "cache_sets sim ! nat si = []" using si c by simp
    have na: "\<not> 0 < a0"
    proof
      assume p: "0 < a0"
      with bad have "cs < a0" by linarith
      with p have "\<not> 0 < cs div a0" by (simp add: pos_imp_zdiv_pos_iff)
      with 3 n show False by simp
    qed
    from eviction_empty_fails obtain err where
      ev: "os_get_eviction_index (random_source env (asked sim)) (ask_policy_callback env (asked sim))
         ([] :: int list) [] [] = Inl err" "err = ValueError \<or> err = IndexError" by blast
    have "os_set_associative env sim address = Inl err"
      using pm pi e a na si ev(1)
      unfolding os_set_associative_def by (simp add: f l)
    with ev(2) show ?thesis by blast
  qed
qed

lemma os_invalid_first_step:
  assumes i: "os_CacheSimulator_init cfg = Inr sim" and bad: "os_invalid_geometry cfg"
  shows "\<exists>e. os_step env sim address = Inl e \<and>
             (e = ZeroDivisionError \<or> e = IndexError \<or> e = ValueError)"
proof (cases "cfg_mapping cfg")
  case DIRECT
  with i bad have "os_cache_size sim \<le> 0" "os_cache sim = []" "os_mapping sim = DIRECT"
    by (auto simp: os_CacheSimulator_init_def os_invalid_geometry_def)
  with os_direct_fails[of sim address] show ?thesis by (auto simp: os_step_def)
next
  case FULLY_ASSOCIATIVE
  with i bad have "os_cache_size sim \<le> 0" "os_cache sim = []" "fifo_queue sim = []"
    "lru_stack sim = []" "os_mapping sim = FULLY_ASSOCIATIVE"
    by (auto simp: os_CacheSimulator_init_def os_invalid_geometry_def)
  with os_fully_fails[of sim env address] show ?thesis by (auto simp: os_step_def)
next
  case SET_ASSOCIATIVE
  with i obtain a0 where a0: "cfg_associativity cfg = Some a0" "a0 \<noteq> 0"
    by (auto simp: os_CacheSimulator_init_def py_floordiv_def split: option.splits if_splits)
  with i SET_ASSOCIATIVE have s:
    "num_sets sim = cfg_cache_size cfg div a0" "os_associativity sim = Some a0"
    "cache_sets sim = replicate (nat (num_sets sim)) []"
    "fifo_queues sim = (\<lambda>i. if 0 \<le> i \<and> i < num_sets sim then Some [] else None)"
    "lru_stacks sim = (\<lambda>i. if 0 \<le> i \<and> i < num_sets sim then Some [] else None)"
    "os_mapping sim = SET_ASSOCIATIVE"
    by (auto simp: os_CacheSimulator_init_def py_floordiv_def)
  from bad SET_ASSOCIATIVE a0 have
    b: "cfg_cache_size cfg \<le> 0 \<or> a0 < 1 \<or> cfg_cache_size cfg < a0"
    by (auto simp: os_invalid_geometry_def)
  from os_set_fails[OF s(1,2) b s(3,4,5)] s(6) show ?thesis by (simp add: os_step_def)
qed

lemma os_init_fails_iff:
  "(\<exists>e. os_CacheSimulator_init cfg = Inl e) \<longleftrightarrow>
     cfg_mapping cfg = SET_ASSOCIATIVE \<and>
     (cfg_associativity cfg = None \<or> cfg_associativity cfg = Some 0)"
  by (auto simp: os_CacheSimulator_init_def py_floordiv_def split: option.splits)

lemma os_init_error:
  "os_CacheSimulator_init cfg = Inl e \<Longrightarrow> e = TypeError \<or> e = ZeroDivisionError"
  by (auto simp: os_CacheSimulator_init_def py_floordiv_def split: option.splits if_splits)

lemma os_invalid_fails:
  assumes "os_invalid_geometry cfg" "cfg_sequence cfg \<noteq> []"
  shows "\<exists>e. os_simulate env cfg = Inl e \<and>
             (e = TypeError \<or> e = ZeroDivisionError \<or> e = IndexError \<or> e = ValueError)"
proof (cases "os_CacheSimulator_init cfg")
  case (Inl e)
  then show ?thesis using os_init_error[OF Inl] by (auto simp: os_simulate_def)
next
  case (Inr sim)
  then have sq: "sequence sim = cfg_sequence cfg"
    by (auto simp: os_CacheSimulator_init_def split: if_splits option.splits sum.splits)
  with assms(2) obtain a rest where ar: "sequence sim = a # rest"
    by (metis neq_Nil_conv)
  from os_invalid_first_step[OF Inr assms(1)] obtain e where
    "os_step env sim a = Inl e" "e = ZeroDivisionError \<or> e = IndexError \<or> e = ValueError"
    by blast
  then show ?thesis using Inr ar by (auto simp: os_simulate_def os_run_def)
qed

lemma access_nonpositive_capacity:
  assumes "cache_size cfg \<le> 0"
    and "mapping cfg = ''Direct'' \<or> mapping cfg = ''Fully-Associative'' \<or>
         mapping cfg = ''Set-Associative''"
    and "replacement_policy cfg = ''FIFO'' \<or> replacement_policy cfg = ''LRU''"
  shows "\<exists>e. access (CacheSimulator_init cfg) a = Inl e \<and>
             (e = ZeroDivisionError \<or> e = IndexError)"
proof -
  have s: "a mod 2 = 0 \<or> a mod 2 = 1" by auto
  have d: "cache_size cfg div 2 \<le> 0" using assms(1) by simp
  note defs = access_def CacheSimulator_init_def Cache_init_def CacheSet_init_def
    get_set_index_def py_mod_def py_index_def access_set_def find_block_def is_full_def
    apply_fifo_policy_def remove_block_def pop0_def
  from assms(2) show ?thesis
  proof (elim disjE)
    assume "mapping cfg = ''Direct''"
    then show ?thesis using assms(1) by (simp add: defs)
  next
    assume "mapping cfg = ''Fully-Associative''"
    then show ?thesis using assms(1,3) by (auto simp: defs)
  next
    assume m: "mapping cfg = ''Set-Associative''"
    from s show ?thesis
    proof
      assume "a mod 2 = 0"
      then show ?thesis using m d assms(3) by (auto simp: defs)
    next
      assume "a mod 2 = 1"
      then show ?thesis using m d assms(3) by (auto simp: defs)
    qed
  qed
qed

lemma run_nonpositive_capacity:
  assumes "cache_size cfg \<le> 0"
    and "mapping cfg = ''Direct'' \<or> mapping cfg = ''Fully-Associative'' \<or>
         mapping cfg = ''Set-Associative''"
    and "replacement_policy cfg = ''FIFO'' \<or> replacement_policy cfg = ''LRU''"
  shows "\<exists>e. run (CacheSimulator_init cfg) (a # rest) = Inl e \<and>
             (e = ZeroDivisionError \<or> e = IndexError)"
proof -
  from access_nonpositive_capacity[OF assms] obtain e where
    "access (CacheSimulator_init cfg) a = Inl e" "e = ZeroDivisionError \<or> e = IndexError"
    by blast
  then show ?thesis by (auto simp: run_def)
qed

lemma run_empty:
  "run (CacheSimulator_init cfg) [] = Inr \<lparr>r_hits = 0, r_misses = 0, r_total = 0, r_log = []\<rparr>"
  by (simp add: run_def CacheSimulator_init_def)


section \<open>Recency order under LRU in the fixed-policy simulator\<close>

lemma lru_blocks_found:
  "find (\<lambda>blk. tag blk = t) bs = Some b \<Longrightarrow> apply_lru_policy_blocks bs t = remove1 b bs @ [b]"
proof (induction bs)
  case Nil
  then show ?case by simp
next
  case (Cons c rest)
  show ?case
  proof (cases "tag c = t")
    case True
    with Cons.prems show ?thesis by simp
  next
    case False
    with Cons.prems have f: "find (\<lambda>blk. tag blk = t) rest = Some b" by simp
    then have "tag b = t" by (auto simp: find_Some_iff)
    with False have "b \<noteq> c" by auto
    with False Cons.IH[OF f] show ?thesis by simp
  qed
qed

lemma lru_tags_found:
  assumes "distinct (map tag bs)" "t \<in> tag ` set bs"
  shows "map tag (apply_lru_policy_blocks bs t) = filter (\<lambda>u. u \<noteq> t) (map tag bs) @ [t]"
  using assms
proof (induction bs)
  case Nil
  then show ?case by simp
next
  case (Cons c rest)
  show ?case
  proof (cases "tag c = t")
    case True
    with Cons.prems(1) have "t \<notin> set (map tag rest)" by auto
    then have "filter (\<lambda>u. u \<noteq> t) (map tag rest) = map tag rest"
      by (intro filter_True) auto
    with True show ?thesis by simp
  next
    case False
    with Cons.prems have "distinct (map tag rest)" "t \<in> tag ` set rest" by auto
    from Cons.IH[OF this] False show ?thesis by simp
  qed
qed

lemma access_set_distinct:
  assumes "distinct (map tag (blocks s))" "access_set p s a = Inr (s', st, v)"
  shows "distinct (map tag (blocks s'))"
  using assms
  unfolding access_set_def is_full_def apply_fifo_policy_def remove_block_def
    pop0_def add_block_def apply_lru_policy_def
  by (auto split: option.splits list.splits if_splits simp: find_block_None)

lemma access_distinct:
  assumes inv: "\<forall>s \<in> set (sets (cache sim)). distinct (map tag (blocks s))"
    and a: "access sim a = Inr (sim', ev)"
  shows "\<forall>s \<in> set (sets (cache sim')). distinct (map tag (blocks s))"
proof -
  from access_facts(11)[OF a] obtain s' where
    s': "access_set (replacement_policy (config sim)) (sets (cache sim) ! ev_set ev) a
              = Inr (s', ev_status ev, ev_victim ev)"
    "sets (cache sim') = (sets (cache sim))[ev_set ev := s']" by blast
  have i: "ev_set ev < length (sets (cache sim))" by (rule access_facts(10)[OF a])
  with inv have "distinct (map tag (blocks (sets (cache sim) ! ev_set ev)))" by simp
  from access_set_distinct[OF this s'(1)] have "distinct (map tag (blocks s'))" .
  then show ?thesis using inv s'(2)
    by (auto dest!: set_update_subset_insert[THEN subsetD])
qed

lemma run_loop_distinct:
  assumes "\<forall>s \<in> set (sets (cache sim)). distinct (map tag (blocks s))"
    and "run_loop sim as = Inr (sim', evs)"
  shows "\<forall>s \<in> set (sets (cache sim')). distinct (map tag (blocks s))"
  using assms
proof (induction as arbitrary: sim evs)
  case Nil
  then show ?case by simp
next
  case (Cons a as)
  from Cons.prems(2) obtain sim1 ev evs1 where
    a: "access sim a = Inr (sim1, ev)" and r: "run_loop sim1 as = Inr (sim', evs1)"
    by (auto split: sum.splits prod.splits)
  show ?case by (rule Cons.IH[OF access_distinct[OF Cons.prems(1) a] r])
qed

lemma init_distinct:
  "\<forall>s \<in> set (sets (cache (CacheSimulator_init cfg))). distinct (map tag (blocks s))"
  unfolding CacheSimulator_init_def Cache_init_def CacheSet_init_def by auto

lemma access_set_hit_lru:
  assumes "access_set ''LRU'' s x = Inr (s', ''HIT'', v)" "distinct (map tag (blocks s))"
  shows "map tag (blocks s') = filter (\<lambda>u. u \<noteq> x) (map tag (blocks s)) @ [x]"
proof -
  from assms(1) obtain b where f: "find_block s x = Some b"
    unfolding access_set_def is_full_def apply_fifo_policy_def remove_block_def
      pop0_def add_block_def
    by (auto split: option.splits list.splits if_splits)
  then have "x \<in> tag ` set (blocks s)" using find_block_Some by force
  from lru_tags_found[OF assms(2) this] assms(1) f show ?thesis
    unfolding access_set_def apply_lru_policy_def by auto
qed

lemma access_set_victim:
  assumes "access_set p s a = Inr (s', st, Some v)"
  shows "blocks s \<noteq> [] \<and> v = hd (blocks s) \<and> blocks s' = tl (blocks s) @ [CacheBlock a] \<and>
         st = ''MISS''"
  using assms
  unfolding access_set_def is_full_def apply_fifo_policy_def remove_block_def
    pop0_def add_block_def
  by (auto split: option.splits list.splits if_splits)

lemma access_set_quiet:
  assumes "access_set p s a = Inr (s', ''MISS'', None)"
  shows "blocks s' = blocks s @ [CacheBlock a]"
  using assms
  unfolding access_set_def is_full_def apply_fifo_policy_def remove_block_def
    pop0_def add_block_def
  by (auto split: option.splits list.splits if_splits)

lemma access_resident:
  assumes a: "access sim a = Inr (sim', ev)"
  shows "ev_set ev \<noteq> i \<Longrightarrow> resident sim' i = resident sim i"
    and "ev_set ev = i \<Longrightarrow> ev_status ev = ''MISS'' \<Longrightarrow> ev_victim ev = None \<Longrightarrow>
         resident sim' i = resident sim i @ [a]"
    and "ev_set ev = i \<Longrightarrow> ev_victim ev = Some v \<Longrightarrow>
         resident sim i \<noteq> [] \<and> tag v = hd (resident sim i) \<and>
         resident sim' i = tl (resident sim i) @ [a]"
proof -
  from access_facts(11)[OF a] obtain s' where
    s': "access_set (replacement_policy (config sim)) (sets (cache sim) ! ev_set ev) a
              = Inr (s', ev_status ev, ev_victim ev)"
    "sets (cache sim') = (sets (cache sim))[ev_set ev := s']" by blast
  have l: "ev_set ev < length (sets (cache sim))" by (rule access_facts(10)[OF a])
  show "ev_set ev \<noteq> i \<Longrightarrow> resident sim' i = resident sim i"
    using s'(2) by (simp add: resident_def)
  show "ev_set ev = i \<Longrightarrow> ev_status ev = ''MISS'' \<Longrightarrow> ev_victim ev = None \<Longrightarrow>
         resident sim' i = resident sim i @ [a]"
    using s' l access_set_quiet[of _ "sets (cache sim) ! i" a s'] by (simp add: resident_def)
  show "ev_set ev = i \<Longrightarrow> ev_victim ev = Some v \<Longrightarrow>
         resident sim i \<noteq> [] \<and> tag v = hd (resident sim i) \<and>
         resident sim' i = tl (resident sim i) @ [a]"
    using s' l access_set_victim[of _ "sets (cache sim) ! i" a s' "ev_status ev" v]
    by (simp add: resident_def hd_map map_tl)
qed

lemma run_loop_quiet:
  assumes "run_loop sim as = Inr (sim', evs)"
    and "\<forall>e \<in> set evs. ev_set e = i \<longrightarrow> ev_status e = ''MISS'' \<and> ev_victim e = None"
  shows "\<exists>ys. resident sim' i = resident sim i @ ys"
  using assms
proof (induction as arbitrary: sim evs)
  case Nil
  then show ?case by simp
next
  case (Cons a as)
  from Cons.prems(1) obtain sim1 ev evs1 where
    a: "access sim a = Inr (sim1, ev)" and r: "run_loop sim1 as = Inr (sim', evs1)"
    and e: "evs = ev # evs1"
    by (auto split: sum.splits prod.splits)
  from Cons.prems(2) e have q1: "ev_set ev = i \<longrightarrow> ev_status ev = ''MISS'' \<and> ev_victim ev = None"
    and q2: "\<forall>e \<in> set evs1. ev_set e = i \<longrightarrow> ev_status e = ''MISS'' \<and> ev_victim e = None"
    by auto
  have "\<exists>ys. resident sim1 i = resident sim i @ ys"
    using access_resident(1,2)[OF a, of i] q1 by (cases "ev_set ev = i") auto
  moreover from Cons.IH[OF r q2] obtain zs where "resident sim' i = resident sim1 i @ zs" by blast
  ultimately show ?case by auto
qed


section \<open>What a completed run returns\<close>

lemma two_way_count:
  assumes "\<forall>x \<in> set xs. f x = a \<or> f x = b" "a \<noteq> b"
  shows "length (filter (\<lambda>x. f x = a) xs) + length (filter (\<lambda>x. f x = b) xs) = length xs"
  using assms by (induction xs) auto

lemma run_result:
  assumes "run (CacheSimulator_init cfg) seq = Inr r"
  shows "r_hits r + r_misses r = int (length seq) \<and> r_total r = int (length seq) \<and>
         length (r_log r) = length seq \<and> map fst (r_log r) = seq \<and>
         (\<forall>entry \<in> set (r_log r). snd entry = ''HIT'' \<or> snd entry = ''MISS'') \<and>
         r_hits r = int (length (filter (\<lambda>entry. snd entry = ''HIT'') (r_log r))) \<and>
         r_misses r = int (length (filter (\<lambda>entry. snd entry = ''MISS'') (r_log r)))"
proof -
  from assms obtain sim' evs where
    l: "run_loop (CacheSimulator_init cfg) seq = Inr (sim', evs)"
    and r: "r = \<lparr>r_hits = hits sim', r_misses = misses sim',
               r_total = int (length seq), r_log = access_log sim'\<rparr>"
    unfolding run_def by (auto split: sum.splits prod.splits)
  note f = run_loop_facts[OF l]
  have log: "access_log sim' = map (\<lambda>e. (ev_addr e, ev_status e)) evs"
    using f by (simp add: CacheSimulator_init_def)
  have st: "\<forall>e \<in> set evs. ev_status e = ''HIT'' \<or> ev_status e = ''MISS''" using f by blast
  have h: "hits sim' = int (length (filter (\<lambda>e. ev_status e = ''HIT'') evs))"
    and m: "misses sim' = int (length (filter (\<lambda>e. ev_status e = ''MISS'') evs))"
    using f by (simp_all add: CacheSimulator_init_def)
  have len: "length evs = length seq" and ad: "map ev_addr evs = seq" using f by blast+
  have tot: "length (filter (\<lambda>e. ev_status e = ''HIT'') evs)
        + length (filter (\<lambda>e. ev_status e = ''MISS'') evs) = length evs"
    by (rule two_way_count[OF st]) simp
  have fh: "filter (\<lambda>entry. snd entry = st') (map (\<lambda>e. (ev_addr e, ev_status e)) evs)
        = map (\<lambda>e. (ev_addr e, ev_status e)) (filter (\<lambda>e. ev_status e = st') evs)" for st'
    by (simp add: filter_map comp_def)
  have "r_hits r + r_misses r = int (length seq)" using r h m tot len by simp
  moreover have "map fst (r_log r) = seq" using r log ad by (simp add: comp_def)
  moreover have "\<forall>entry \<in> set (r_log r). snd entry = ''HIT'' \<or> snd entry = ''MISS''"
    using r log st by auto
  moreover have "r_hits r = int (length (filter (\<lambda>entry. snd entry = ''HIT'') (r_log r)))"
    using r log h by (simp add: fh)
  moreover have "r_misses r = int (length (filter (\<lambda>entry. snd entry = ''MISS'') (r_log r)))"
    using r log m by (simp add: fh)
  moreover have "length (r_log r) = length seq" "r_total r = int (length seq)"
    using r log len by simp_all
  ultimately show ?thesis by blast
qed

lemma run_total:
  assumes "valid_geometry cfg"
  shows "\<exists>r. run (CacheSimulator_init cfg) seq = Inr r"
proof -
  from run_loop_total[OF geometry_ok_init[OF assms]] obtain sim' evs where
    "run_loop (CacheSimulator_init cfg) seq = Inr (sim', evs)" by blast
  then show ?thesis by (simp add: run_def)
qed

lemma os_init_tally:
  assumes "os_CacheSimulator_init cfg = Inr sim"
  shows "os_tally sim \<and> history sim = [] \<and> sequence sim = cfg_sequence cfg"
  using assms unfolding os_CacheSimulator_init_def os_tally_def
  by (auto split: if_splits option.splits sum.splits)

lemma os_result:
  assumes "os_simulate env cfg = Inr r"
  shows "res_hits r + res_misses r = int (length (cfg_sequence cfg)) \<and>
         length (res_history r) = length (cfg_sequence cfg) \<and>
         res_sequence r = cfg_sequence cfg \<and>
         (\<forall>h \<in> set (res_history r). h = ''H'' \<or> h = ''M'') \<and>
         res_hits r = int (length (filter (\<lambda>h. h = ''H'') (res_history r))) \<and>
         res_misses r = int (length (filter (\<lambda>h. h = ''M'') (res_history r)))"
proof -
  from assms obtain sim sim' where
    i: "os_CacheSimulator_init cfg = Inr sim"
    and l: "os_run_loop env sim (sequence sim) = Inr sim'"
    and r: "r = \<lparr>res_hits = os_hits sim', res_misses = os_misses sim',
               res_cache = os_cache sim', res_cache_sets = cache_sets sim',
               res_history = history sim', res_sequence = sequence sim'\<rparr>"
    unfolding os_simulate_def os_run_def by (auto split: sum.splits)
  note it = os_init_tally[OF i]
  from it have t0: "os_tally sim" by blast
  note t = os_run_loop_tally[OF t0 l]
  from t have t1: "os_tally sim'" by blast
  have len: "length (history sim') = length (cfg_sequence cfg)" using t it by simp
  have sq: "sequence sim' = cfg_sequence cfg" using t it by simp
  have all: "\<forall>h \<in> set (history sim'). h = ''H'' \<or> h = ''M''"
    using t1 unfolding os_tally_def by blast
  have tot: "length (filter (\<lambda>h. h = ''H'') (history sim'))
            + length (filter (\<lambda>h. h = ''M'') (history sim')) = length (history sim')"
    by (rule tally_total[OF all])
  show ?thesis using r t1 len sq all tot unfolding os_tally_def by simp
qed


section \<open>Where an address is stored\<close>

lemma os_direct_slot:
  assumes pos: "0 < os_cache_size sim" and r: "os_direct_mapping sim a = Inr sim'"
  shows "os_cache sim' ! nat (a mod os_cache_size sim) = Some a"
proof -
  define c where "c = (if int (length (os_cache sim)) < os_cache_size sim then
               os_cache sim @ replicate (nat (os_cache_size sim - int (length (os_cache sim)))) None
             else os_cache sim)"
  have l: "os_cache_size sim \<le> int (length c)" by (auto simp: c_def)
  have m: "0 \<le> a mod os_cache_size sim" "a mod os_cache_size sim < os_cache_size sim"
    using pos by auto
  then have pi: "py_index c (a mod os_cache_size sim) = Inr (nat (a mod os_cache_size sim))"
    using l by (intro py_index_in_range) linarith+
  have il: "nat (a mod os_cache_size sim) < length c" using m l by linarith
  have pm: "py_mod a (os_cache_size sim) = Inr (a mod os_cache_size sim)"
    using pos by (simp add: py_mod_def)
  have "os_direct_mapping sim a =
          (if c ! nat (a mod os_cache_size sim) = Some a then
                     Inr (sim\<lparr>os_cache := c, os_hits := os_hits sim + 1,
                              history := history sim @ [''H'']\<rparr>)
                   else
                     Inr (sim\<lparr>os_cache := c[nat (a mod os_cache_size sim) := Some a],
                              os_misses := os_misses sim + 1,
                              history := history sim @ [''M''],
                              inserted := inserted sim @ [(a mod os_cache_size sim, Some a)],
                              evicted := evicted sim @
                                (case c ! nat (a mod os_cache_size sim) of
                                   None \<Rightarrow> []
                                 | Some v \<Rightarrow> [(a mod os_cache_size sim, Some v)])\<rparr>))"
    unfolding os_direct_mapping_def Let_def c_def[symmetric] by (simp add: pm pi)
  note eq = this
  show ?thesis
  proof (cases "c ! nat (a mod os_cache_size sim) = Some a")
    case True
    with r eq have "sim' = sim\<lparr>os_cache := c, os_hits := os_hits sim + 1,
                              history := history sim @ [''H'']\<rparr>" by simp
    then show ?thesis using True by simp
  next
    case False
    with r eq have "os_cache sim' = c[nat (a mod os_cache_size sim) := Some a]" by auto
    then show ?thesis using il by simp
  qed
qed

lemma os_fully_slot:
  assumes "os_fully_associative env sim a = Inr sim'"
  shows "Some a \<in> set (os_cache sim')"
proof (cases "Some a \<in> set (os_cache sim)")
  case True
  then show ?thesis using assms by (auto simp: os_fully_associative_def)
next
  case False
  show ?thesis
  proof (cases "int (length (os_cache sim)) < os_cache_size sim")
    case True
    then show ?thesis using False assms by (auto simp: os_fully_associative_def)
  next
    case nf: False
    from assms False nf obtain k f l where
      e: "os_get_eviction_index (random_source env (asked sim))
                (ask_policy_callback env (asked sim))
                (os_cache sim) (fifo_queue sim) (lru_stack sim) = Inr (k, f, l)"
      by (simp add: os_fully_associative_def split: sum.splits prod.splits)
    with assms False nf obtain i where i: "py_index (os_cache sim) k = Inr i"
      by (simp add: os_fully_associative_def split: sum.splits)
    have "i < length (os_cache sim)" by (rule py_index_bound[OF i])
    then have "Some a \<in> set ((os_cache sim)[i := Some a])" by (rule set_update_memI)
    then show ?thesis using assms False nf e i
      by (auto simp: os_fully_associative_def)
  qed
qed

lemma py_index_nonneg: "py_index xs k = Inr i \<Longrightarrow> 0 \<le> k \<Longrightarrow> i = nat k"
  by (auto simp: py_index_def split: if_splits)

lemma os_set_slot:
  assumes pos: "0 < num_sets sim" and r: "os_set_associative env sim a = Inr sim'"
  shows "a \<in> set (cache_sets sim' ! nat (a mod num_sets sim))"
proof -
  have nn: "0 \<le> a mod num_sets sim" using pos by simp
  have pm: "py_mod a (num_sets sim) = Inr si \<Longrightarrow> si = a mod num_sets sim" for si
    using pos by (simp add: py_mod_def)
  from r show ?thesis
  proof (cases rule: os_set_associative_cases)
    case (hit si s)
    have "s = nat (a mod num_sets sim)" using py_index_nonneg[OF hit(2)] pm[OF hit(1)] nn by simp
    then show ?thesis using hit(3,4) by simp
  next
    case (fill si s a')
    have s: "s = nat (a mod num_sets sim)"
      using py_index_nonneg[OF fill(2)] pm[OF fill(1)] nn by simp
    have "s < length (cache_sets sim)" by (rule py_index_bound[OF fill(2)])
    then show ?thesis using fill(6) s by simp
  next
    case (evict si s a' q l k f' l' i)
    have s: "s = nat (a mod num_sets sim)"
      using py_index_nonneg[OF evict(2)] pm[OF evict(1)] nn by simp
    have sl: "s < length (cache_sets sim)" by (rule py_index_bound[OF evict(2)])
    have "i < length (cache_sets sim ! s)" by (rule py_index_bound[OF evict(9)])
    then have "a \<in> set ((cache_sets sim ! s)[i := a])" by (rule set_update_memI)
    then show ?thesis using evict(10) s sl by simp
  qed
qed


section \<open>Whole runs: random source and set invariant\<close>

lemma os_simulate_indep:
  assumes "ask_policy_callback env1 = ask_policy_callback env2"
    "\<forall>k. ask_policy_callback env1 k \<noteq> RANDOM"
  shows "os_simulate env1 cfg = os_simulate env2 cfg"
  unfolding os_simulate_def os_run_def os_run_loop_indep[OF assms] by (rule refl)

lemma os_run_loop_set_inv:
  assumes "os_mapping sim = SET_ASSOCIATIVE" "os_associativity sim = Some a"
    and "\<forall>cs \<in> set (cache_sets sim). os_set_inv a cs"
    and "os_run_loop env sim as = Inr sim'"
  shows "\<forall>cs \<in> set (cache_sets sim'). os_set_inv a cs"
  using assms
proof (induction as arbitrary: sim)
  case Nil
  then show ?case by simp
next
  case (Cons x xs)
  from Cons.prems(4) obtain sim1 where
    s: "os_step env sim x = Inr sim1" and r: "os_run_loop env sim1 xs = Inr sim'"
    by (auto split: sum.splits)
  from s Cons.prems(1) have sa: "os_set_associative env sim x = Inr sim1"
    by (simp add: os_step_def)
  have k: "os_mapping sim1 = SET_ASSOCIATIVE" "os_associativity sim1 = Some a"
    using os_step_facts[OF s] Cons.prems(1,2) unfolding os_counted_def by simp_all
  show ?case
    by (rule Cons.IH[OF k os_set_associative_inv[OF Cons.prems(2,3) sa] r])
qed

lemma os_simulate_set_inv:
  assumes r: "os_simulate env cfg = Inr res" and m: "cfg_mapping cfg = SET_ASSOCIATIVE"
    and a: "cfg_associativity cfg = Some a" "0 \<le> a"
  shows "\<forall>cs \<in> set (res_cache_sets res). os_set_inv a cs"
proof -
  from r obtain sim sim' where
    i: "os_CacheSimulator_init cfg = Inr sim"
    and l: "os_run_loop env sim (sequence sim) = Inr sim'"
    and res: "res_cache_sets res = cache_sets sim'"
    unfolding os_simulate_def os_run_def by (auto split: sum.splits)
  from i m a have s: "os_mapping sim = SET_ASSOCIATIVE" "os_associativity sim = Some a"
    "\<forall>cs \<in> set (cache_sets sim). os_set_inv a cs"
    by (auto simp: os_CacheSimulator_init_def os_set_inv_def split: sum.splits)
  from os_run_loop_set_inv[OF s l] res show ?thesis by simp
qed

lemma run_loop_inv_total:
  assumes "valid_geometry cfg"
    "replacement_policy cfg = ''FIFO'' \<or> replacement_policy cfg = ''LRU''"
  shows "\<exists>sim' evs. run_loop (CacheSimulator_init cfg) seq = Inr (sim', evs) \<and>
           (\<forall>s \<in> set (sets (cache sim')). set_inv s)"
proof -
  from run_loop_total[OF geometry_ok_init[OF assms(1)]] obtain sim' evs where
    r: "run_loop (CacheSimulator_init cfg) seq = Inr (sim', evs)" by blast
  have p: "replacement_policy (config (CacheSimulator_init cfg)) = ''FIFO'' \<or>
           replacement_policy (config (CacheSimulator_init cfg)) = ''LRU''"
    using assms(2) by (simp add: CacheSimulator_init_def)
  from run_loop_inv[OF p init_inv[OF assms(1)] r] r show ?thesis by blast
qed


section \<open>FIFO order in the callback simulator\<close>

lemma arrival_fill:
  assumes "arrival_ok cs [] ins ev"
  shows "arrival_ok (cs @ [a]) [] (ins @ [a]) ev"
proof -
  from assms obtain k where k: "k \<le> length cs" "[] = drop k cs" "ins = ev @ drop k cs @ take k cs"
    unfolding arrival_ok_def by blast
  from k(1,2) have "k = length cs" by simp
  with k(3) have "ins = ev @ cs" by simp
  then show ?thesis unfolding arrival_ok_def
    by (intro exI[of _ "Suc (length cs)"]) simp
qed

lemma arrival_evict:
  assumes ok: "arrival_ok cs fifo ins ev" and d: "distinct cs" and ne: "cs \<noteq> []"
  shows "\<exists>i < length cs. os_get_eviction_index r FIFO cs fifo lru = Inr (int i, drop (Suc i) cs, lru) \<and>
           arrival_ok (cs[i := a]) (drop (Suc i) cs) (ins @ [a]) (ev @ [cs ! i])"
proof -
  from ok obtain k where k: "k \<le> length cs" "fifo = drop k cs" "ins = ev @ drop k cs @ take k cs"
    unfolding arrival_ok_def by blast
  define i where "i = (if fifo = [] then 0 else k)"
  have il: "i < length cs" using ne k(1,2) by (auto simp: i_def)
  have q: "(if fifo = [] then fifo @ cs else fifo) = drop i cs" using k(2) by (simp add: i_def)
  have rot: "drop k cs @ take k cs = cs ! i # drop (Suc i) cs @ take i cs"
  proof (cases "fifo = []")
    case True
    with k(1,2) have "k = length cs" by simp
    moreover have "cs = cs ! 0 # drop (Suc 0) cs" using ne by (cases cs) auto
    ultimately show ?thesis using True by (simp add: i_def)
  next
    case False
    then show ?thesis using il by (simp add: i_def Cons_nth_drop_Suc)
  qed
  have e: "os_get_eviction_index r FIFO cs fifo lru = Inr (int i, drop (Suc i) cs, lru)"
    unfolding os_get_eviction_index_def q using pop0_drop[OF il] list_index_nth[OF d il]
    by simp
  have t: "take (Suc i) (cs[i := a]) = take i cs @ [a]"
    using il by (simp add: take_Suc_conv_app_nth)
  have dr: "drop (Suc i) (cs[i := a]) = drop (Suc i) cs" by simp
  have "ins @ [a] = (ev @ [cs ! i]) @ drop (Suc i) (cs[i := a]) @ take (Suc i) (cs[i := a])"
    unfolding t dr k(3) rot by simp
  then have "arrival_ok (cs[i := a]) (drop (Suc i) cs) (ins @ [a]) (ev @ [cs ! i])"
    unfolding arrival_ok_def using il dr by (intro exI[of _ "Suc i"]) simp
  with il e show ?thesis by blast
qed


lemma os_direct_mapping_cases:
  assumes pos: "0 < os_cache_size sim" and r: "os_direct_mapping sim a = Inr sim'"
  obtains (hit) c where
      "c = os_cache sim @ replicate (nat (os_cache_size sim - int (length (os_cache sim)))) None"
      "nat (a mod os_cache_size sim) < length c"
      "sim' = sim\<lparr>os_cache := c, os_hits := os_hits sim + 1, history := history sim @ [''H'']\<rparr>"
  | (miss) c where
      "c = os_cache sim @ replicate (nat (os_cache_size sim - int (length (os_cache sim)))) None"
      "nat (a mod os_cache_size sim) < length c"
      "sim' = sim\<lparr>os_cache := c[nat (a mod os_cache_size sim) := Some a],
                   os_misses := os_misses sim + 1,
                   history := history sim @ [''M''],
                   inserted := inserted sim @ [(a mod os_cache_size sim, Some a)],
                   evicted := evicted sim @
                     (case c ! nat (a mod os_cache_size sim) of
                        None \<Rightarrow> []
                      | Some v \<Rightarrow> [(a mod os_cache_size sim, Some v)])\<rparr>"
proof -
  define c where "c = os_cache sim @ replicate (nat (os_cache_size sim - int (length (os_cache sim)))) None"
  have c': "(if int (length (os_cache sim)) < os_cache_size sim then
               os_cache sim @ replicate (nat (os_cache_size sim - int (length (os_cache sim)))) None
             else os_cache sim) = c"
    by (simp add: c_def)
  have l: "os_cache_size sim \<le> int (length c)" by (auto simp: c_def)
  have m: "0 \<le> a mod os_cache_size sim" "a mod os_cache_size sim < os_cache_size sim"
    using pos by auto
  then have pi: "py_index c (a mod os_cache_size sim) = Inr (nat (a mod os_cache_size sim))"
    using l by (intro py_index_in_range) linarith+
  have il: "nat (a mod os_cache_size sim) < length c" using m l by linarith
  have pm: "py_mod a (os_cache_size sim) = Inr (a mod os_cache_size sim)"
    using pos by (simp add: py_mod_def)
  have eq: "os_direct_mapping sim a =
          (if c ! nat (a mod os_cache_size sim) = Some a then
                     Inr (sim\<lparr>os_cache := c, os_hits := os_hits sim + 1,
                              history := history sim @ [''H'']\<rparr>)
                   else
                     Inr (sim\<lparr>os_cache := c[nat (a mod os_cache_size sim) := Some a],
                              os_misses := os_misses sim + 1,
                              history := history sim @ [''M''],
                              inserted := inserted sim @ [(a mod os_cache_size sim, Some a)],
                              evicted := evicted sim @
                                (case c ! nat (a mod os_cache_size sim) of
                                   None \<Rightarrow> []
                                 | Some v \<Rightarrow> [(a mod os_cache_size sim, Some v)])\<rparr>))"
    unfolding os_direct_mapping_def Let_def c' by (simp add: pm pi)
  show thesis
  proof (cases "c ! nat (a mod os_cache_size sim) = Some a")
    case True
    with r eq have "sim' = sim\<lparr>os_cache := c, os_hits := os_hits sim + 1,
                              history := history sim @ [''H'']\<rparr>" by simp
    from hit[OF c_def il this] show thesis .
  next
    case False
    with r eq have "sim' = sim\<lparr>os_cache := c[nat (a mod os_cache_size sim) := Some a],
                   os_misses := os_misses sim + 1,
                   history := history sim @ [''M''],
                   inserted := inserted sim @ [(a mod os_cache_size sim, Some a)],
                   evicted := evicted sim @
                     (case c ! nat (a mod os_cache_size sim) of
                        None \<Rightarrow> []
                      | Some v \<Rightarrow> [(a mod os_cache_size sim, Some v)])\<rparr>" by simp
    from miss[OF c_def il this] show thesis .
  qed
qed

lemma os_fully_associative_cases:
  assumes r: "os_fully_associative env sim a = Inr sim'"
  obtains (hit) "Some a \<in> set (os_cache sim)"
      "sim' = sim\<lparr>os_hits := os_hits sim + 1, history := history sim @ [''H'']\<rparr>"
  | (fill) "Some a \<notin> set (os_cache sim)" "int (length (os_cache sim)) < os_cache_size sim"
      "sim' = sim\<lparr>os_misses := os_misses sim + 1, history := history sim @ [''M''],
                 os_cache := os_cache sim @ [Some a],
                 inserted := inserted sim @ [(0, Some a)]\<rparr>"
  | (evict) k f' l' i where
      "Some a \<notin> set (os_cache sim)" "\<not> int (length (os_cache sim)) < os_cache_size sim"
      "os_get_eviction_index (random_source env (asked sim))
         (ask_policy_callback env (asked sim)) (os_cache sim) (fifo_queue sim) (lru_stack sim)
         = Inr (k, f', l')"
      "py_index (os_cache sim) k = Inr i"
      "sim' = sim\<lparr>os_misses := os_misses sim + 1, history := history sim @ [''M''],
                   os_cache := (os_cache sim)[i := Some a],
                   fifo_queue := f', lru_stack := l',
                   asked := Suc (asked sim),
                   inserted := inserted sim @ [(0, Some a)],
                   evicted := evicted sim @ [(0, os_cache sim ! i)]\<rparr>"
proof (cases "Some a \<in> set (os_cache sim)")
  case True
  with r have "sim' = sim\<lparr>os_hits := os_hits sim + 1, history := history sim @ [''H'']\<rparr>"
    by (simp add: os_fully_associative_def)
  from hit[OF True this] show thesis .
next
  case False
  show thesis
  proof (cases "int (length (os_cache sim)) < os_cache_size sim")
    case True
    with r False have "sim' = sim\<lparr>os_misses := os_misses sim + 1, history := history sim @ [''M''],
                 os_cache := os_cache sim @ [Some a],
                 inserted := inserted sim @ [(0, Some a)]\<rparr>"
      by (simp add: os_fully_associative_def)
    from fill[OF False True this] show thesis .
  next
    case nf: False
    from r False nf obtain k f l where
      e: "os_get_eviction_index (random_source env (asked sim))
                (ask_policy_callback env (asked sim))
                (os_cache sim) (fifo_queue sim) (lru_stack sim) = Inr (k, f, l)"
      by (simp add: os_fully_associative_def split: sum.splits prod.splits)
    with r False nf obtain i where i: "py_index (os_cache sim) k = Inr i"
      by (simp add: os_fully_associative_def split: sum.splits)
    with r False nf e have "sim' = sim\<lparr>os_misses := os_misses sim + 1, history := history sim @ [''M''],
                   os_cache := (os_cache sim)[i := Some a],
                   fifo_queue := f, lru_stack := l,
                   asked := Suc (asked sim),
                   inserted := inserted sim @ [(0, Some a)],
                   evicted := evicted sim @ [(0, os_cache sim ! i)]\<rparr>"
      by (simp add: os_fully_associative_def)
    from evict[OF False nf e i this] show thesis .
  qed
qed

lemma slot_content_pad: "slot_content (c @ replicate n None) i = slot_content c i"
  by (auto simp: slot_content_def nth_append)

lemma slot_content_update:
  "j < length c \<Longrightarrow>
     slot_content (c[j := Some a]) i = (if i = int j then [Some a] else slot_content c i)"
  by (auto simp: slot_content_def)

lemma os_direct_fifo_inv:
  assumes pos: "0 < os_cache_size sim" and m: "os_mapping sim = DIRECT"
    and inv: "os_fifo_inv sim" and r: "os_direct_mapping sim a = Inr sim'"
  shows "os_fifo_inv sim'"
proof -
  from inv m have I: "os_inserted_into sim i = os_evicted_from sim i @ slot_content (os_cache sim) i" for i
    by (simp add: os_fifo_inv_def)
  have nn: "0 \<le> a mod os_cache_size sim" using pos by simp
  from pos r show ?thesis
  proof (cases rule: os_direct_mapping_cases)
    case (hit c)
    then show ?thesis using I m
      by (simp add: os_fifo_inv_def os_inserted_into_def os_evicted_from_def slot_content_pad)
  next
    case (miss c)
    have sc: "slot_content c i = slot_content (os_cache sim) i" for i
      unfolding miss(1) by (rule slot_content_pad)
    have at: "slot_content c (a mod os_cache_size sim) =
              (case c ! nat (a mod os_cache_size sim) of None \<Rightarrow> [] | Some v \<Rightarrow> [Some v])"
    proof -
      have "a mod os_cache_size sim < int (length c)" using miss(2) nn by linarith
      then show ?thesis using nn by (simp add: slot_content_def)
    qed
    have "os_inserted_into sim' i = os_evicted_from sim' i @ slot_content (os_cache sim') i" for i
    proof (cases "i = a mod os_cache_size sim")
      case True
      then show ?thesis using I[of i] sc[of i] at miss(2) nn
        by (cases "c ! nat (a mod os_cache_size sim)")
           (simp_all add: miss(3) os_inserted_into_def os_evicted_from_def slot_content_update)
    next
      case False
      then have "i \<noteq> int (nat (a mod os_cache_size sim))" using nn by simp
      then show ?thesis using I[of i] sc[of i] False miss(2)
        by (cases "c ! nat (a mod os_cache_size sim)")
           (simp_all add: miss(3) os_inserted_into_def os_evicted_from_def slot_content_update)
    qed
    moreover have "os_mapping sim' = DIRECT" using m by (simp add: miss(3))
    ultimately show ?thesis by (simp add: os_fifo_inv_def)
  qed
qed


lemma os_fully_fifo_inv:
  assumes oi: "os_inv FIFO sim" and m: "os_mapping sim = FULLY_ASSOCIATIVE"
    and cb: "ask_policy_callback env (asked sim) = FIFO"
    and inv: "os_fifo_inv sim" and r: "os_fully_associative env sim a = Inr sim'"
  shows "os_fifo_inv sim'"
proof -
  from oi m have pos: "0 < os_cache_size sim" and d: "distinct (os_cache sim)"
    and q: "queue_ok FIFO (os_cache_size sim) (os_cache sim) (fifo_queue sim) (lru_stack sim)"
    by (simp_all add: os_inv_def)
  from inv m have ok: "arrival_ok (os_cache sim) (fifo_queue sim)
                         (os_inserted_into sim 0) (os_evicted_from sim 0)"
    and oth: "\<And>i. i \<noteq> 0 \<Longrightarrow> os_inserted_into sim i = [] \<and> os_evicted_from sim i = []"
    by (simp_all add: os_fifo_inv_def)
  from r show ?thesis
  proof (cases rule: os_fully_associative_cases)
    case hit
    then show ?thesis using ok oth m
      by (simp add: os_fifo_inv_def os_inserted_into_def os_evicted_from_def)
  next
    case fill
    from q fill(2) have fe: "fifo_queue sim = []" by (simp add: queue_ok_def)
    from arrival_fill[OF ok[unfolded fe], of "Some a"]
    have "arrival_ok (os_cache sim @ [Some a]) (fifo_queue sim)
            (os_inserted_into sim 0 @ [Some a]) (os_evicted_from sim 0)"
      by (simp add: fe)
    moreover have "os_inserted_into sim' 0 = os_inserted_into sim 0 @ [Some a]"
      "os_evicted_from sim' 0 = os_evicted_from sim 0"
      "os_cache sim' = os_cache sim @ [Some a]" "fifo_queue sim' = fifo_queue sim"
      "os_mapping sim' = FULLY_ASSOCIATIVE"
      using m by (simp_all add: fill(3) os_inserted_into_def os_evicted_from_def)
    moreover have "i \<noteq> 0 \<Longrightarrow> os_inserted_into sim' i = [] \<and> os_evicted_from sim' i = []" for i
      using oth[of i] by (simp add: fill(3) os_inserted_into_def os_evicted_from_def)
    ultimately show ?thesis by (simp add: os_fifo_inv_def)
  next
    case (evict k f' l' i)
    from evict(2) pos have ne: "os_cache sim \<noteq> []" by auto
    from arrival_evict[OF ok d ne, of "random_source env (asked sim)" "lru_stack sim" "Some a"]
    obtain j where j: "j < length (os_cache sim)"
      "os_get_eviction_index (random_source env (asked sim)) FIFO (os_cache sim)
         (fifo_queue sim) (lru_stack sim) = Inr (int j, drop (Suc j) (os_cache sim), lru_stack sim)"
      "arrival_ok ((os_cache sim)[j := Some a]) (drop (Suc j) (os_cache sim))
         (os_inserted_into sim 0 @ [Some a]) (os_evicted_from sim 0 @ [os_cache sim ! j])"
      by blast
    from evict(3) j(2) cb have kf: "k = int j" "f' = drop (Suc j) (os_cache sim)" by simp_all
    from evict(4) kf(1) have ij: "i = j" using py_index_nonneg[of "os_cache sim" k i] by simp
    have "os_inserted_into sim' 0 = os_inserted_into sim 0 @ [Some a]"
      "os_evicted_from sim' 0 = os_evicted_from sim 0 @ [os_cache sim ! j]"
      "os_cache sim' = (os_cache sim)[j := Some a]" "fifo_queue sim' = drop (Suc j) (os_cache sim)"
      "os_mapping sim' = FULLY_ASSOCIATIVE"
      using m by (simp_all add: evict(5) ij kf os_inserted_into_def os_evicted_from_def)
    moreover have "i' \<noteq> 0 \<Longrightarrow> os_inserted_into sim' i' = [] \<and> os_evicted_from sim' i' = []" for i'
      using oth[of i'] by (simp add: evict(5) os_inserted_into_def os_evicted_from_def)
    ultimately show ?thesis using j(3) by (simp add: os_fifo_inv_def)
  qed
qed

lemma os_set_fifo_inv:
  assumes oi: "os_inv FIFO sim" and m: "os_mapping sim = SET_ASSOCIATIVE"
    and cb: "ask_policy_callback env (asked sim) = FIFO"
    and inv: "os_fifo_inv sim" and r: "os_set_associative env sim address = Inr sim'"
  shows "os_fifo_inv sim'"
proof -
  from oi m obtain a0 where pos: "0 < num_sets sim"
    and ns: "num_sets sim = int (length (cache_sets sim))"
    and a0: "os_associativity sim = Some a0"
    and per: "\<And>s. s < length (cache_sets sim) \<Longrightarrow>
                distinct (cache_sets sim ! s) \<and> int (length (cache_sets sim ! s)) \<le> a0 \<and>
                (\<exists>q l. fifo_queues sim (int s) = Some q \<and> lru_stacks sim (int s) = Some l \<and>
                       queue_ok FIFO a0 (cache_sets sim ! s) q l)"
    and a1: "1 \<le> a0"
    by (auto simp: os_inv_def)
  from inv m have ok: "\<And>s. s < length (cache_sets sim) \<Longrightarrow>
             \<exists>q ins ev. fifo_queues sim (int s) = Some q \<and>
               os_inserted_into sim (int s) = map Some ins \<and>
               os_evicted_from sim (int s) = map Some ev \<and>
               arrival_ok (cache_sets sim ! s) q ins ev"
    and oth: "\<And>i. \<not> (0 \<le> i \<and> i < int (length (cache_sets sim))) \<Longrightarrow>
               os_inserted_into sim i = [] \<and> os_evicted_from sim i = []"
    by (simp_all add: os_fifo_inv_def)
  have idx: "si = int s \<and> s < length (cache_sets sim)"
    if "py_mod address (num_sets sim) = Inr si" "py_index (cache_sets sim) si = Inr s" for si s
  proof -
    from that(1) pos have "si = address mod num_sets sim"
      by (simp add: py_mod_def split: if_splits)
    then have "0 \<le> si" using pos by simp
    with py_index_nonneg[OF that(2)] py_index_bound[OF that(2)] show ?thesis by simp
  qed
  from r show ?thesis
  proof (cases rule: os_set_associative_cases)
    case (hit si s)
    then show ?thesis using ok oth m
      by (simp add: os_fifo_inv_def os_inserted_into_def os_evicted_from_def)
  next
    case (fill si s a)
    from idx[OF fill(1,2)] have si: "si = int s" and sl: "s < length (cache_sets sim)" by simp_all
    from fill(4) a0 have aa: "a = a0" by simp
    have len: "length (cache_sets sim') = length (cache_sets sim)" by (simp add: fill(6))
    have "\<exists>q ins ev. fifo_queues sim' (int t) = Some q \<and>
               os_inserted_into sim' (int t) = map Some ins \<and>
               os_evicted_from sim' (int t) = map Some ev \<and>
               arrival_ok (cache_sets sim' ! t) q ins ev" if t: "t < length (cache_sets sim)" for t
    proof (cases "t = s")
      case True
      from ok[OF sl] obtain q ins ev where o: "fifo_queues sim (int s) = Some q"
        "os_inserted_into sim (int s) = map Some ins" "os_evicted_from sim (int s) = map Some ev"
        "arrival_ok (cache_sets sim ! s) q ins ev" by blast
      from per[OF sl] o(1) fill(5) aa have qe: "q = []" by (auto simp: queue_ok_def)
      from arrival_fill[OF o(4)[unfolded qe], of address]
      have "arrival_ok (cache_sets sim ! s @ [address]) [] (ins @ [address]) ev" .
      moreover have "os_inserted_into sim' (int s) = map Some (ins @ [address])"
        "os_evicted_from sim' (int s) = map Some ev" "fifo_queues sim' (int s) = Some []"
        "cache_sets sim' ! s = cache_sets sim ! s @ [address]"
        using o(1,2,3) sl qe by (simp_all add: fill(6) si os_inserted_into_def os_evicted_from_def)
      ultimately show ?thesis unfolding True
        by (intro exI[of _ "[]"] exI[of _ "ins @ [address]"] exI[of _ ev]) simp
    next
      case False
      from ok[OF t] obtain q ins ev where o: "fifo_queues sim (int t) = Some q"
        "os_inserted_into sim (int t) = map Some ins" "os_evicted_from sim (int t) = map Some ev"
        "arrival_ok (cache_sets sim ! t) q ins ev" by blast
      have "os_inserted_into sim' (int t) = map Some ins"
        "os_evicted_from sim' (int t) = map Some ev" "fifo_queues sim' (int t) = Some q"
        "cache_sets sim' ! t = cache_sets sim ! t"
        using o(1,2,3) False by (simp_all add: fill(6) si os_inserted_into_def os_evicted_from_def)
      with o(4) show ?thesis
        by (intro exI[of _ q] exI[of _ ins] exI[of _ ev]) simp
    qed
    moreover have "os_inserted_into sim' i = [] \<and> os_evicted_from sim' i = []"
      if "\<not> (0 \<le> i \<and> i < int (length (cache_sets sim)))" for i
    proof -
      from that sl si have "si \<noteq> i" by auto
      then show ?thesis using oth[OF that]
        by (simp add: fill(6) os_inserted_into_def os_evicted_from_def)
    qed
    moreover have "os_mapping sim' = SET_ASSOCIATIVE" using m by (simp add: fill(6))
    ultimately show ?thesis unfolding os_fifo_inv_def len by simp
  next
    case (evict si s a q l k f' l' i)
    from idx[OF evict(1,2)] have si: "si = int s" and sl: "s < length (cache_sets sim)" by simp_all
    from evict(4) a0 have aa: "a = a0" by simp
    have len: "length (cache_sets sim') = length (cache_sets sim)" by (simp add: evict(10))
    from per[OF sl] have d: "distinct (cache_sets sim ! s)" by simp
    from evict(5) aa a1 have ne: "cache_sets sim ! s \<noteq> []" by auto
    from ok[OF sl] evict(6) si obtain ins ev where o:
        "os_inserted_into sim (int s) = map Some ins" "os_evicted_from sim (int s) = map Some ev"
        "arrival_ok (cache_sets sim ! s) q ins ev" by auto
    from arrival_evict[OF o(3) d ne, of "random_source env (asked sim)" l address]
    obtain j where j: "j < length (cache_sets sim ! s)"
      "os_get_eviction_index (random_source env (asked sim)) FIFO (cache_sets sim ! s) q l
         = Inr (int j, drop (Suc j) (cache_sets sim ! s), l)"
      "arrival_ok ((cache_sets sim ! s)[j := address]) (drop (Suc j) (cache_sets sim ! s))
         (ins @ [address]) (ev @ [cache_sets sim ! s ! j])"
      by blast
    from evict(8) j(2) cb have kf: "k = int j" "f' = drop (Suc j) (cache_sets sim ! s)" by simp_all
    from evict(9) kf(1) have ij: "i = j"
      using py_index_nonneg[of "cache_sets sim ! s" k i] by simp
    have "\<exists>q ins ev. fifo_queues sim' (int t) = Some q \<and>
               os_inserted_into sim' (int t) = map Some ins \<and>
               os_evicted_from sim' (int t) = map Some ev \<and>
               arrival_ok (cache_sets sim' ! t) q ins ev" if t: "t < length (cache_sets sim)" for t
    proof (cases "t = s")
      case True
      have "os_inserted_into sim' (int s) = map Some (ins @ [address])"
        "os_evicted_from sim' (int s) = map Some (ev @ [cache_sets sim ! s ! j])"
        "fifo_queues sim' (int s) = Some (drop (Suc j) (cache_sets sim ! s))"
        "cache_sets sim' ! s = (cache_sets sim ! s)[j := address]"
        using o(1,2) sl
        by (simp_all add: evict(10) si ij kf os_inserted_into_def os_evicted_from_def)
      with j(3) show ?thesis unfolding True
        by (intro exI[of _ "drop (Suc j) (cache_sets sim ! s)"] exI[of _ "ins @ [address]"]
              exI[of _ "ev @ [cache_sets sim ! s ! j]"]) simp
    next
      case False
      from ok[OF t] obtain q2 ins2 ev2 where o2: "fifo_queues sim (int t) = Some q2"
        "os_inserted_into sim (int t) = map Some ins2" "os_evicted_from sim (int t) = map Some ev2"
        "arrival_ok (cache_sets sim ! t) q2 ins2 ev2" by blast
      have "os_inserted_into sim' (int t) = map Some ins2"
        "os_evicted_from sim' (int t) = map Some ev2" "fifo_queues sim' (int t) = Some q2"
        "cache_sets sim' ! t = cache_sets sim ! t"
        using o2(1,2,3) False
        by (simp_all add: evict(10) si os_inserted_into_def os_evicted_from_def)
      with o2(4) show ?thesis
        by (intro exI[of _ q2] exI[of _ ins2] exI[of _ ev2]) simp
    qed
    moreover have "os_inserted_into sim' i' = [] \<and> os_evicted_from sim' i' = []"
      if "\<not> (0 \<le> i' \<and> i' < int (length (cache_sets sim)))" for i'
    proof -
      from that sl si have "si \<noteq> i'" by auto
      then show ?thesis using oth[OF that]
        by (simp add: evict(10) os_inserted_into_def os_evicted_from_def)
    qed
    moreover have "os_mapping sim' = SET_ASSOCIATIVE" using m by (simp add: evict(10))
    ultimately show ?thesis unfolding os_fifo_inv_def len by simp
  qed
qed


lemma os_step_fifo_inv:
  assumes oi: "os_inv FIFO sim" and cb: "ask_policy_callback env (asked sim) = FIFO"
    and inv: "os_fifo_inv sim" and r: "os_step env sim a = Inr sim'"
  shows "os_fifo_inv sim'"
proof (cases "os_mapping sim")
  case DIRECT
  with oi have pos: "0 < os_cache_size sim" by (simp add: os_inv_def)
  from r DIRECT have "os_direct_mapping sim a = Inr sim'" by (simp add: os_step_def)
  from os_direct_fifo_inv[OF pos DIRECT inv this] show ?thesis .
next
  case FULLY_ASSOCIATIVE
  with r have "os_fully_associative env sim a = Inr sim'" by (simp add: os_step_def)
  from os_fully_fifo_inv[OF oi FULLY_ASSOCIATIVE cb inv this] show ?thesis .
next
  case SET_ASSOCIATIVE
  with r have "os_set_associative env sim a = Inr sim'" by (simp add: os_step_def)
  from os_set_fifo_inv[OF oi SET_ASSOCIATIVE cb inv this] show ?thesis .
qed

lemma os_run_loop_fifo_inv:
  assumes "os_inv FIFO sim" "\<forall>k. ask_policy_callback env k = FIFO" "os_fifo_inv sim"
    "os_run_loop env sim as = Inr sim'"
  shows "os_fifo_inv sim'"
  using assms(1,3,4)
proof (induction as arbitrary: sim)
  case Nil
  then show ?case by simp
next
  case (Cons a as)
  from assms(2) have cb: "ask_policy_callback env (asked sim) = FIFO" by simp
  from os_step_total[OF Cons.prems(1) cb, of a] obtain sim1 where
    s: "os_step env sim a = Inr sim1" "os_inv FIFO sim1" by blast
  from os_step_fifo_inv[OF Cons.prems(1) cb Cons.prems(2) s(1)] have f: "os_fifo_inv sim1" .
  from Cons.prems(3) s(1) have "os_run_loop env sim1 as = Inr sim'" by simp
  from Cons.IH[OF s(2) f this] show ?case .
qed

lemma os_init_fifo_inv:
  assumes "os_CacheSimulator_init cfg = Inr sim"
  shows "os_fifo_inv sim"
proof (cases "cfg_mapping cfg = SET_ASSOCIATIVE")
  case True
  with assms obtain a n where "cfg_associativity cfg = Some a"
    "py_floordiv (cfg_cache_size cfg) a = Inr n"
    by (auto simp: os_CacheSimulator_init_def split: option.splits sum.splits)
  with assms True show ?thesis
    by (auto simp: os_CacheSimulator_init_def os_fifo_inv_def os_inserted_into_def
        os_evicted_from_def arrival_ok_def)
next
  case False
  with assms show ?thesis
    by (cases "cfg_mapping cfg")
       (auto simp: os_CacheSimulator_init_def os_fifo_inv_def os_inserted_into_def
          os_evicted_from_def arrival_ok_def slot_content_def)
qed

lemma arrival_ok_rotate:
  assumes "arrival_ok cs fifo ins ev"
  shows "\<exists>k. ins = ev @ rotate k cs"
proof -
  from assms obtain k where k: "k \<le> length cs" "ins = ev @ drop k cs @ take k cs"
    unfolding arrival_ok_def by blast
  show ?thesis
  proof (cases "k = length cs")
    case True
    with k(2) have "ins = ev @ rotate 0 cs" by simp
    then show ?thesis by blast
  next
    case False
    with k(1) have "k < length cs" by simp
    then have "rotate k cs = drop k cs @ take k cs" by (simp add: rotate_drop_take)
    with k(2) show ?thesis by metis
  qed
qed

lemma os_fifo_inv_order:
  assumes "os_fifo_inv sim"
  shows "\<exists>k. os_inserted_into sim i = os_evicted_from sim i @ rotate k (os_resident sim i)"
proof (cases "os_mapping sim")
  case DIRECT
  with assms have "os_inserted_into sim i = os_evicted_from sim i @ rotate 0 (os_resident sim i)"
    by (simp add: os_fifo_inv_def os_resident_def)
  then show ?thesis by blast
next
  case FULLY_ASSOCIATIVE
  show ?thesis
  proof (cases "i = 0")
    case True
    from assms FULLY_ASSOCIATIVE have "arrival_ok (os_cache sim) (fifo_queue sim)
            (os_inserted_into sim 0) (os_evicted_from sim 0)" by (simp add: os_fifo_inv_def)
    from arrival_ok_rotate[OF this] show ?thesis using True FULLY_ASSOCIATIVE
      by (simp add: os_resident_def)
  next
    case False
    with assms FULLY_ASSOCIATIVE
    have "os_inserted_into sim i = os_evicted_from sim i @ rotate 0 (os_resident sim i)"
      by (simp add: os_fifo_inv_def os_resident_def)
    then show ?thesis by blast
  qed
next
  case SET_ASSOCIATIVE
  show ?thesis
  proof (cases "0 \<le> i \<and> i < int (length (cache_sets sim))")
    case True
    then have l: "nat i < length (cache_sets sim)" and ii: "int (nat i) = i" by linarith+
    from assms SET_ASSOCIATIVE l obtain q ins ev where
      o: "os_inserted_into sim (int (nat i)) = map Some ins"
         "os_evicted_from sim (int (nat i)) = map Some ev"
         "arrival_ok (cache_sets sim ! nat i) q ins ev"
      unfolding os_fifo_inv_def by (simp only: MappingType.case) blast
    from arrival_ok_rotate[OF o(3)] obtain k where "ins = ev @ rotate k (cache_sets sim ! nat i)"
      by blast
    then have "map Some ins = map Some ev @ rotate k (map Some (cache_sets sim ! nat i))"
      by (simp add: rotate_map)
    then show ?thesis using o(1,2) True SET_ASSOCIATIVE unfolding ii
      by (simp only: os_resident_def MappingType.case if_True) metis
  next
    case False
    then have res: "os_resident sim i = []" using SET_ASSOCIATIVE
      by (simp only: os_resident_def MappingType.case if_False)
    from assms SET_ASSOCIATIVE have
      "\<forall>i. \<not> (0 \<le> i \<and> i < int (length (cache_sets sim))) \<longrightarrow>
               os_inserted_into sim i = [] \<and> os_evicted_from sim i = []"
      by (simp add: os_fifo_inv_def)
    with False have "os_inserted_into sim i = []" "os_evicted_from sim i = []" by blast+
    with res have "os_inserted_into sim i = os_evicted_from sim i @ rotate 0 (os_resident sim i)"
      by simp
    then show ?thesis by blast
  qed
qed

lemma os_fifo_run:
  assumes g: "os_valid_geometry cfg" and cb: "\<forall>k. ask_policy_callback env k = FIFO"
  shows "\<exists>sim sim'. os_CacheSimulator_init cfg = Inr sim \<and>
           os_run_loop env sim (sequence sim) = Inr sim' \<and>
           (\<forall>i. \<exists>k. os_inserted_into sim' i =
                       os_evicted_from sim' i @ rotate k (os_resident sim' i))"
proof -
  from os_init_inv[OF g, of FIFO] obtain sim where
    s: "os_CacheSimulator_init cfg = Inr sim" "os_inv FIFO sim" by blast
  from os_run_loop_total[OF s(2) cb, of "sequence sim"] obtain sim' where
    r: "os_run_loop env sim (sequence sim) = Inr sim'" by blast
  from os_run_loop_fifo_inv[OF s(2) cb os_init_fifo_inv[OF s(1)] r] have "os_fifo_inv sim'" .
  then have "\<forall>i. \<exists>k. os_inserted_into sim' i =
                       os_evicted_from sim' i @ rotate k (os_resident sim' i)"
    using os_fifo_inv_order by blast
  with s(1) r show ?thesis by blast
qed


section \<open>The claims\<close>

text \<open>
  C4 (as the code behaves). The run with Direct mapping, capacity 4, block size 1 and the
  sequence 1,2,3,2,4,1,5,6,2,1,7,8 has 2 hits and 10 misses, not 1 and 11: the second
  access to address 1 finds 1 still in its slot, because 5 arrives only afterwards. Both
  simulators agree, and the fixed-policy one does so under LRU and under FIFO.
\<close>

theorem direct_capacity4_scenario:
  "run (CacheSimulator_init (fst get_input_data)) (snd get_input_data) =
     Inr \<lparr>r_hits = 2, r_misses = 10, r_total = 12,
          r_log = [(1, ''MISS''), (2, ''MISS''), (3, ''MISS''), (2, ''HIT''),
                   (4, ''MISS''), (1, ''HIT''), (5, ''MISS''), (6, ''MISS''),
                   (2, ''MISS''), (1, ''MISS''), (7, ''MISS''), (8, ''MISS'')]\<rparr> \<and>
   run (CacheSimulator_init \<lparr>cache_size = 4, block_size = 1, mapping = ''Direct'',
                              replacement_policy = ''FIFO''\<rparr>)
       [1, 2, 3, 2, 4, 1, 5, 6, 2, 1, 7, 8] =
     Inr \<lparr>r_hits = 2, r_misses = 10, r_total = 12,
          r_log = [(1, ''MISS''), (2, ''MISS''), (3, ''MISS''), (2, ''HIT''),
                   (4, ''MISS''), (1, ''HIT''), (5, ''MISS''), (6, ''MISS''),
                   (2, ''MISS''), (1, ''MISS''), (7, ''MISS''), (8, ''MISS'')]\<rparr> \<and>
   os_simulate env \<lparr>cfg_sequence = [1, 2, 3, 2, 4, 1, 5, 6, 2, 1, 7, 8], cfg_cache_size = 4,
                    cfg_mapping = DIRECT, cfg_associativity = None\<rparr> =
     Inr \<lparr>res_hits = 2, res_misses = 10,
          res_cache = [Some 8, Some 1, Some 2, Some 7], res_cache_sets = [],
          res_history = [''M'', ''M'', ''M'', ''H'', ''M'', ''H'',
                         ''M'', ''M'', ''M'', ''M'', ''M'', ''M''],
          res_sequence = [1, 2, 3, 2, 4, 1, 5, 6, 2, 1, 7, 8]\<rparr>"
  by code_simp

text \<open>C4 as stated fails: the run of that scenario returns, and neither is its hit count 1
  nor its miss count 11.\<close>

theorem direct_capacity4_counterexample:
  "(case run (CacheSimulator_init (fst get_input_data)) (snd get_input_data) of
      Inl e \<Rightarrow> False
    | Inr r \<Rightarrow> r_hits r \<noteq> 1 \<and> r_misses r \<noteq> 11)"
  by code_simp

text \<open>
  C5 (the input on which the code fails). Fully associative, capacity 2, sequence
  1,2,3,4,5,6, the callback answering FIFO, LRU, LRU, FIFO at the four evictions: the
  fourth eviction pops address 2 from \<open>fifo_queue\<close>, which the LRU evictions have already
  replaced in the cache, and \<open>cache_set.index(victim)\<close> raises ValueError.
\<close>

theorem mixed_policies_raise_ValueError:
  "os_simulate \<lparr>ask_policy_callback = (\<lambda>k. if k = 0 \<or> k = 3 then FIFO else LRU),
                random_source = (\<lambda>k. 0)\<rparr>
       \<lparr>cfg_sequence = [1, 2, 3, 4, 5, 6], cfg_cache_size = 2,
        cfg_mapping = FULLY_ASSOCIATIVE, cfg_associativity = None\<rparr> = Inl ValueError"
  by code_simp

text \<open>
  C1 (as the code behaves). A run that completes returns \<open>hit_count + miss_count\<close> equal to
  the length of the input sequence and a trace with one HIT or MISS entry per input
  address, in input order, the counters being the tallies of the trace. The run completes
  for every geometry that is valid: in the fixed-policy simulator a positive capacity (at
  least 2 under "Set-Associative"), in the callback simulator a positive capacity, an
  associativity within \<open>[1, capacity]\<close> under SET\_ASSOCIATIVE and a callback that answers
  one and the same policy throughout. No result is promised for other configurations.
\<close>

theorem run_counts_and_trace:
  "(valid_geometry cfg \<longrightarrow> (\<exists>r. run (CacheSimulator_init cfg) seq = Inr r)) \<and>
   (\<forall>r. run (CacheSimulator_init cfg) seq = Inr r \<longrightarrow>
        r_hits r + r_misses r = int (length seq) \<and> r_total r = int (length seq) \<and>
        length (r_log r) = length seq \<and> map fst (r_log r) = seq \<and>
        (\<forall>entry \<in> set (r_log r). snd entry = ''HIT'' \<or> snd entry = ''MISS'') \<and>
        r_hits r = int (length (filter (\<lambda>entry. snd entry = ''HIT'') (r_log r))) \<and>
        r_misses r = int (length (filter (\<lambda>entry. snd entry = ''MISS'') (r_log r)))) \<and>
   (os_valid_geometry ocfg \<and> (\<forall>k. ask_policy_callback env k = p) \<longrightarrow>
        (\<exists>r. os_simulate env ocfg = Inr r)) \<and>
   (\<forall>r. os_simulate env ocfg = Inr r \<longrightarrow>
        res_hits r + res_misses r = int (length (cfg_sequence ocfg)) \<and>
        length (res_history r) = length (cfg_sequence ocfg) \<and>
        res_sequence r = cfg_sequence ocfg \<and>
        (\<forall>h \<in> set (res_history r). h = ''H'' \<or> h = ''M'') \<and>
        res_hits r = int (length (filter (\<lambda>h. h = ''H'') (res_history r))) \<and>
        res_misses r = int (length (filter (\<lambda>h. h = ''M'') (res_history r))))"
proof (intro conjI impI allI)
  assume "valid_geometry cfg"
  then show "\<exists>r. run (CacheSimulator_init cfg) seq = Inr r" by (rule run_total)
next
  assume "os_valid_geometry ocfg \<and> (\<forall>k. ask_policy_callback env k = p)"
  then show "\<exists>r. os_simulate env ocfg = Inr r" using os_simulate_total by blast
qed (use run_result[of cfg seq] os_result[of env ocfg] in blast)+

text \<open>The theorem at the built-in configuration (Direct, capacity 4, twelve accesses) and
  at a set-associative configuration of the callback simulator under FIFO.\<close>

theorem run_counts_and_trace_witness:
  "valid_geometry (fst get_input_data) \<and>
   (\<exists>r. run (CacheSimulator_init (fst get_input_data)) (snd get_input_data) = Inr r \<and>
        r_hits r + r_misses r = 12 \<and> length (r_log r) = 12 \<and>
        map fst (r_log r) = snd get_input_data) \<and>
   os_valid_geometry \<lparr>cfg_sequence = [1, 3, 1, 5, 7], cfg_cache_size = 4,
                      cfg_mapping = SET_ASSOCIATIVE, cfg_associativity = Some 2\<rparr> \<and>
   (\<exists>r. os_simulate \<lparr>ask_policy_callback = (\<lambda>k. FIFO), random_source = (\<lambda>k. 0)\<rparr>
             \<lparr>cfg_sequence = [1, 3, 1, 5, 7], cfg_cache_size = 4,
              cfg_mapping = SET_ASSOCIATIVE, cfg_associativity = Some 2\<rparr> = Inr r \<and>
        res_hits r + res_misses r = 5 \<and> length (res_history r) = 5)"
proof -
  define oc where "oc = \<lparr>cfg_sequence = [1, 3, 1, 5, 7], cfg_cache_size = 4,
                      cfg_mapping = SET_ASSOCIATIVE, cfg_associativity = Some 2\<rparr>"
  define en where "en = \<lparr>ask_policy_callback = (\<lambda>k. FIFO), random_source = (\<lambda>k::nat. 0::nat)\<rparr>"
  have v: "valid_geometry (fst get_input_data)"
    by (simp add: valid_geometry_def get_input_data_def)
  have ov: "os_valid_geometry oc"
    by (simp add: os_valid_geometry_def oc_def)
  have fp: "\<forall>k. ask_policy_callback en k = FIFO" by (simp add: en_def)
  note t = run_counts_and_trace[of "fst get_input_data" "snd get_input_data" oc en FIFO]
  note t1 = t[THEN conjunct1, rule_format]
  note t2 = t[THEN conjunct2, THEN conjunct1, rule_format]
  note t3 = t[THEN conjunct2, THEN conjunct2, THEN conjunct1, rule_format]
  note t4 = t[THEN conjunct2, THEN conjunct2, THEN conjunct2, rule_format]
  from t1[OF v] obtain r where
    r: "run (CacheSimulator_init (fst get_input_data)) (snd get_input_data) = Inr r" by (rule exE)
  have l: "length (snd get_input_data) = 12" by (simp add: get_input_data_def)
  have a1: "r_hits r + r_misses r = 12" using t2[OF r] l by simp
  have a2: "length (r_log r) = 12" using t2[OF r] l by simp
  have a3: "map fst (r_log r) = snd get_input_data" using t2[OF r] by simp
  from t3[OF conjI[OF ov fp]] obtain r' where r': "os_simulate en oc = Inr r'" by (rule exE)
  have lo: "length (cfg_sequence oc) = 5" by (simp add: oc_def)
  have b1: "res_hits r' + res_misses r' = 5" using t4[OF r'] lo by simp
  have b2: "length (res_history r') = 5" using t4[OF r'] lo by simp
  have A: "\<exists>r. run (CacheSimulator_init (fst get_input_data)) (snd get_input_data) = Inr r \<and>
        r_hits r + r_misses r = 12 \<and> length (r_log r) = 12 \<and>
        map fst (r_log r) = snd get_input_data"
    using r a1 a2 a3 by (intro exI[of _ r] conjI)
  have B: "\<exists>r. os_simulate en oc = Inr r \<and>
        res_hits r + res_misses r = 5 \<and> length (res_history r) = 5"
    using r' b1 b2 by (intro exI[of _ r'] conjI)
  show ?thesis using v A ov B unfolding oc_def en_def by (intro conjI)
qed

text \<open>C1 as stated fails for a configuration with capacity 0: the first access divides by
  zero and the run returns no counters and no trace, in either simulator.\<close>

theorem run_counts_counterexample:
  "run (CacheSimulator_init \<lparr>cache_size = 0, block_size = 1, mapping = ''Direct'',
                              replacement_policy = ''LRU''\<rparr>) [1] = Inl ZeroDivisionError \<and>
   os_simulate \<lparr>ask_policy_callback = (\<lambda>k. RANDOM), random_source = (\<lambda>k. 0)\<rparr>
       \<lparr>cfg_sequence = [1], cfg_cache_size = 0, cfg_mapping = DIRECT,
        cfg_associativity = None\<rparr> = Inl ZeroDivisionError"
  by code_simp

lemma access_associativity:
  assumes "access sim a = Inr (sim', ev)"
  shows "map associativity (sets (cache sim')) = map associativity (sets (cache sim))"
proof -
  from access_facts(11)[OF assms] obtain s' where
    s': "access_set (replacement_policy (config sim)) (sets (cache sim) ! ev_set ev) a
              = Inr (s', ev_status ev, ev_victim ev)"
    "sets (cache sim') = (sets (cache sim))[ev_set ev := s']" by blast
  have "associativity s' = associativity (sets (cache sim) ! ev_set ev)"
    by (rule access_set_facts(1)[OF s'(1)])
  then show ?thesis using s'(2) access_facts(10)[OF assms]
    by (simp add: map_update list_update_same_conv)
qed

lemma run_loop_associativity:
  "run_loop sim as = Inr (sim', evs) \<Longrightarrow>
     map associativity (sets (cache sim')) = map associativity (sets (cache sim))"
proof (induction as arbitrary: sim evs)
  case Nil
  then show ?case by simp
next
  case (Cons a as)
  from Cons.prems obtain sim1 ev evs1 where
    a: "access sim a = Inr (sim1, ev)" and r: "run_loop sim1 as = Inr (sim', evs1)"
    by (auto split: sum.splits prod.splits)
  from Cons.IH[OF r] access_associativity[OF a] show ?case by simp
qed

text \<open>
  C10. Under the mapping "Set-Associative" the fixed-policy simulator constructs exactly two
  sets, both empty and both of associativity \<open>cache_size // 2\<close>, whatever else the
  configuration holds (the configuration has no associativity entry at all), and every run
  leaves the number of sets and their associativities as constructed.
\<close>

theorem set_associative_two_sets:
  assumes "mapping cfg = ''Set-Associative''"
  shows "sets (cache (CacheSimulator_init cfg)) =
           [CacheSet_init (cache_size cfg div 2), CacheSet_init (cache_size cfg div 2)] \<and>
         (\<forall>seq sim' evs. run_loop (CacheSimulator_init cfg) seq = Inr (sim', evs) \<longrightarrow>
            map associativity (sets (cache sim')) = [cache_size cfg div 2, cache_size cfg div 2])"
proof -
  have i: "sets (cache (CacheSimulator_init cfg)) =
           [CacheSet_init (cache_size cfg div 2), CacheSet_init (cache_size cfg div 2)]"
    using assms by (simp add: CacheSimulator_init_def Cache_init_def numeral_2_eq_2)
  have "map associativity (sets (cache sim')) = [cache_size cfg div 2, cache_size cfg div 2]"
    if "run_loop (CacheSimulator_init cfg) seq = Inr (sim', evs)" for seq sim' evs
    using run_loop_associativity[OF that] i by (simp add: CacheSet_init_def)
  with i show ?thesis by blast
qed

text \<open>The theorem at capacity 8: two sets of associativity 4.\<close>

theorem set_associative_two_sets_witness:
  "mapping \<lparr>cache_size = 8, block_size = 1, mapping = ''Set-Associative'',
            replacement_policy = ''LRU''\<rparr> = ''Set-Associative'' \<and>
   sets (cache (CacheSimulator_init \<lparr>cache_size = 8, block_size = 1,
            mapping = ''Set-Associative'', replacement_policy = ''LRU''\<rparr>)) =
     [\<lparr>blocks = [], associativity = 4\<rparr>, \<lparr>blocks = [], associativity = 4\<rparr>]"
  using set_associative_two_sets[of "\<lparr>cache_size = 8, block_size = 1,
            mapping = ''Set-Associative'', replacement_policy = ''LRU''\<rparr>"]
  by (simp add: CacheSet_init_def)

text \<open>
  C3. Under the FIFO policy, for every set of every run, the entries evicted from the set
  come out in the order in which they were inserted into it, whatever hits fall in between.
  In the fixed-policy simulator the addresses inserted into a set (its misses, in order) are
  the addresses evicted from it (in order) followed by the addresses still resident, so the
  evictions are the initial segment of the insertions. In the callback simulator, with a
  valid geometry and a callback that answers FIFO every time, the run returns, and under
  every index the entries stored are the entries overwritten there (in order) followed by
  the entries still held, which appear as a rotation of the slot list because a victim is
  overwritten in place.
\<close>

theorem fifo_eviction_order:
  "(replacement_policy cfg = ''FIFO'' \<and>
    run_loop (CacheSimulator_init cfg) seq = Inr (sim', evs) \<and>
    i < length (sets (cache sim')) \<longrightarrow>
      inserted_into evs i = evicted_from evs i @ resident sim' i \<and>
      take (length (evicted_from evs i)) (inserted_into evs i) = evicted_from evs i) \<and>
   (os_valid_geometry ocfg \<and> (\<forall>k. ask_policy_callback env k = FIFO) \<longrightarrow>
      (\<exists>osim osim'. os_CacheSimulator_init ocfg = Inr osim \<and>
          os_run_loop env osim (sequence osim) = Inr osim' \<and>
          (\<forall>j. \<exists>k. os_inserted_into osim' j =
                      os_evicted_from osim' j @ rotate k (os_resident osim' j))))"
proof (intro conjI impI)
  assume a: "replacement_policy cfg = ''FIFO'' \<and>
    run_loop (CacheSimulator_init cfg) seq = Inr (sim', evs) \<and>
    i < length (sets (cache sim'))"
  have c: "replacement_policy (config (CacheSimulator_init cfg)) = ''FIFO''"
    using a by (simp add: CacheSimulator_init_def)
  from a have r: "run_loop (CacheSimulator_init cfg) seq = Inr (sim', evs)" by simp
  have l: "i < length (sets (cache (CacheSimulator_init cfg)))"
    using run_loop_facts[OF r] a by simp
  have e: "resident (CacheSimulator_init cfg) i = []"
    using l unfolding resident_def CacheSimulator_init_def Cache_init_def CacheSet_init_def
    by (auto split: if_splits)
  from run_loop_fifo[OF c r l] e
  show f: "inserted_into evs i = evicted_from evs i @ resident sim' i" by simp
  then show "take (length (evicted_from evs i)) (inserted_into evs i) = evicted_from evs i"
    by simp
next
  assume "os_valid_geometry ocfg \<and> (\<forall>k. ask_policy_callback env k = FIFO)"
  then show "\<exists>osim osim'. os_CacheSimulator_init ocfg = Inr osim \<and>
          os_run_loop env osim (sequence osim) = Inr osim' \<and>
          (\<forall>j. \<exists>k. os_inserted_into osim' j =
                      os_evicted_from osim' j @ rotate k (os_resident osim' j))"
    using os_fifo_run[of ocfg env] by blast
qed

text \<open>The theorem on fully associative caches of capacity 2 with a hit between the
  insertions: in both simulators 1, 2, 3 are evicted in the order in which they arrived.\<close>

theorem fifo_eviction_order_witness:
  "replacement_policy \<lparr>cache_size = 2, block_size = 1, mapping = ''Fully-Associative'',
                       replacement_policy = ''FIFO''\<rparr> = ''FIFO'' \<and>
   (case run_loop (CacheSimulator_init \<lparr>cache_size = 2, block_size = 1,
                     mapping = ''Fully-Associative'', replacement_policy = ''FIFO''\<rparr>)
           [1, 2, 1, 3, 1, 4] of
      Inl e \<Rightarrow> False
    | Inr (sim', evs) \<Rightarrow>
        map ev_status evs = [''MISS'', ''MISS'', ''HIT'', ''MISS'', ''MISS'', ''MISS''] \<and>
        inserted_into evs 0 = [1, 2, 3, 1, 4] \<and> evicted_from evs 0 = [1, 2, 3] \<and>
        resident sim' 0 = [1, 4] \<and>
        inserted_into evs 0 = evicted_from evs 0 @ resident sim' 0) \<and>
   os_valid_geometry \<lparr>cfg_sequence = [1, 2, 1, 3, 1, 4], cfg_cache_size = 2,
        cfg_mapping = FULLY_ASSOCIATIVE, cfg_associativity = None\<rparr> \<and>
   (\<forall>k. ask_policy_callback \<lparr>ask_policy_callback = (\<lambda>k. FIFO), random_source = (\<lambda>k. 0)\<rparr> k
        = FIFO) \<and>
   (\<exists>osim osim'.
      os_CacheSimulator_init \<lparr>cfg_sequence = [1, 2, 1, 3, 1, 4], cfg_cache_size = 2,
        cfg_mapping = FULLY_ASSOCIATIVE, cfg_associativity = None\<rparr> = Inr osim \<and>
      os_run_loop \<lparr>ask_policy_callback = (\<lambda>k. FIFO), random_source = (\<lambda>k. 0)\<rparr> osim
        (sequence osim) = Inr osim' \<and>
      (\<forall>j. \<exists>k. os_inserted_into osim' j =
                  os_evicted_from osim' j @ rotate k (os_resident osim' j))) \<and>
   (case os_CacheSimulator_init \<lparr>cfg_sequence = [1, 2, 1, 3, 1, 4], cfg_cache_size = 2,
        cfg_mapping = FULLY_ASSOCIATIVE, cfg_associativity = None\<rparr> of
      Inl e \<Rightarrow> False
    | Inr osim \<Rightarrow>
       (case os_run_loop \<lparr>ask_policy_callback = (\<lambda>k. FIFO), random_source = (\<lambda>k. 0)\<rparr> osim
               (sequence osim) of
          Inl e \<Rightarrow> False
        | Inr osim' \<Rightarrow>
            history osim' = [''M'', ''M'', ''H'', ''M'', ''M'', ''M''] \<and>
            os_inserted_into osim' 0 = [Some 1, Some 2, Some 3, Some 1, Some 4] \<and>
            os_evicted_from osim' 0 = [Some 1, Some 2, Some 3] \<and>
            os_resident osim' 0 = [Some 4, Some 1]))"
proof -
  define cfg where "cfg = \<lparr>cache_size = 2, block_size = 1, mapping = ''Fully-Associative'',
                       replacement_policy = ''FIFO''\<rparr>"
  define oc where "oc = \<lparr>cfg_sequence = [1, 2, 1, 3, 1, 4], cfg_cache_size = 2,
        cfg_mapping = FULLY_ASSOCIATIVE, cfg_associativity = None\<rparr>"
  define e where "e = \<lparr>ask_policy_callback = (\<lambda>k::nat. FIFO), random_source = (\<lambda>k::nat. 0::nat)\<rparr>"
  have p: "replacement_policy cfg = ''FIFO''" by (simp add: cfg_def)
  have v: "valid_geometry cfg" by (simp add: cfg_def valid_geometry_def)
  from run_loop_total[OF geometry_ok_init[OF v]] obtain sim' evs where
    r: "run_loop (CacheSimulator_init cfg) [1, 2, 1, 3, 1, 4] = Inr (sim', evs)" by blast
  have l: "0 < length (sets (cache sim'))"
    using run_loop_facts[OF r] by (simp add: cfg_def CacheSimulator_init_def Cache_init_def)
  note t = fifo_eviction_order[of cfg "[1, 2, 1, 3, 1, 4]" sim' evs 0 oc e]
  note t1 = t[THEN conjunct1, THEN mp, OF conjI[OF p conjI[OF r l]]]
  have ev: "(case run_loop (CacheSimulator_init cfg) [1, 2, 1, 3, 1, 4] of
      Inl e \<Rightarrow> False
    | Inr (sim', evs) \<Rightarrow>
        map ev_status evs = [''MISS'', ''MISS'', ''HIT'', ''MISS'', ''MISS'', ''MISS''] \<and>
        inserted_into evs 0 = [1, 2, 3, 1, 4] \<and> evicted_from evs 0 = [1, 2, 3] \<and>
        resident sim' 0 = [1, 4])"
    unfolding cfg_def by code_simp
  have a: "(case run_loop (CacheSimulator_init cfg) [1, 2, 1, 3, 1, 4] of
      Inl e \<Rightarrow> False
    | Inr (sim', evs) \<Rightarrow>
        map ev_status evs = [''MISS'', ''MISS'', ''HIT'', ''MISS'', ''MISS'', ''MISS''] \<and>
        inserted_into evs 0 = [1, 2, 3, 1, 4] \<and> evicted_from evs 0 = [1, 2, 3] \<and>
        resident sim' 0 = [1, 4] \<and>
        inserted_into evs 0 = evicted_from evs 0 @ resident sim' 0)"
    using ev t1 r by simp
  have g: "os_valid_geometry oc" by (simp add: oc_def os_valid_geometry_def)
  have cb: "\<forall>k. ask_policy_callback e k = FIFO" by (simp add: e_def)
  note t2 = t[THEN conjunct2, THEN mp, OF conjI[OF g cb]]
  have b: "(case os_CacheSimulator_init oc of
      Inl e \<Rightarrow> False
    | Inr osim \<Rightarrow>
       (case os_run_loop e osim (sequence osim) of
          Inl e \<Rightarrow> False
        | Inr osim' \<Rightarrow>
            history osim' = [''M'', ''M'', ''H'', ''M'', ''M'', ''M''] \<and>
            os_inserted_into osim' 0 = [Some 1, Some 2, Some 3, Some 1, Some 4] \<and>
            os_evicted_from osim' 0 = [Some 1, Some 2, Some 3] \<and>
            os_resident osim' 0 = [Some 4, Some 1]))"
    unfolding oc_def e_def by code_simp
  show ?thesis using p a g cb t2 b unfolding cfg_def oc_def e_def by (intro conjI)
qed

text \<open>
  C6. The address mapper \<open>get_set_index\<close> is a function of the address, the mapping, the
  capacity and the number of sets only: it returns \<open>address mod capacity\<close> under "Direct"
  (for a capacity other than 0), 0 under "Fully-Associative" and
  \<open>address mod set_count\<close> under "Set-Associative"; on a cache with a valid geometry it
  always returns, and the index is a position of \<open>sets\<close>. The callback simulator computes
  the same indices inside its steps: after an access, the address sits in slot
  \<open>address mod cache_size\<close> of the direct-mapped cache, somewhere in the single fully
  associative list, and in set \<open>address mod num_sets\<close> of the set-associative cache.
\<close>

theorem address_mapper:
  "(c_mapping c = ''Direct'' \<and> c_cache_size c \<noteq> 0 \<longrightarrow>
      get_set_index c address = Inr (address mod c_cache_size c)) \<and>
   (c_mapping c = ''Fully-Associative'' \<longrightarrow> get_set_index c address = Inr 0) \<and>
   (c_mapping c = ''Set-Associative'' \<and> sets c \<noteq> [] \<longrightarrow>
      get_set_index c address = Inr (address mod int (length (sets c)))) \<and>
   (c_mapping c' = c_mapping c \<and> c_cache_size c' = c_cache_size c \<and>
    length (sets c') = length (sets c) \<longrightarrow>
      get_set_index c' address = get_set_index c address) \<and>
   (geometry_ok c \<longrightarrow>
      (\<exists>k. get_set_index c address = Inr k \<and> 0 \<le> k \<and> k < int (length (sets c)))) \<and>
   (0 < os_cache_size osim \<and> os_direct_mapping osim address = Inr osim' \<longrightarrow>
      os_cache osim' ! nat (address mod os_cache_size osim) = Some address) \<and>
   (os_fully_associative env osim address = Inr osim' \<longrightarrow>
      Some address \<in> set (os_cache osim')) \<and>
   (0 < num_sets osim \<and> os_set_associative env osim address = Inr osim' \<longrightarrow>
      address \<in> set (cache_sets osim' ! nat (address mod num_sets osim)))"
proof (intro conjI impI)
  assume "c_mapping c = ''Direct'' \<and> c_cache_size c \<noteq> 0"
  then show "get_set_index c address = Inr (address mod c_cache_size c)"
    by (simp add: get_set_index_def py_mod_def)
next
  assume "c_mapping c = ''Fully-Associative''"
  then show "get_set_index c address = Inr 0" by (simp add: get_set_index_def)
next
  assume "c_mapping c = ''Set-Associative'' \<and> sets c \<noteq> []"
  then show "get_set_index c address = Inr (address mod int (length (sets c)))"
    by (simp add: get_set_index_def py_mod_def)
next
  assume "c_mapping c' = c_mapping c \<and> c_cache_size c' = c_cache_size c \<and>
    length (sets c') = length (sets c)"
  then show "get_set_index c' address = get_set_index c address"
    by (simp add: get_set_index_def)
next
  assume "geometry_ok c"
  then show "\<exists>k. get_set_index c address = Inr k \<and> 0 \<le> k \<and> k < int (length (sets c))"
    by (rule get_set_index_ok)
next
  assume "0 < os_cache_size osim \<and> os_direct_mapping osim address = Inr osim'"
  then show "os_cache osim' ! nat (address mod os_cache_size osim) = Some address"
    using os_direct_slot by blast
next
  assume "os_fully_associative env osim address = Inr osim'"
  then show "Some address \<in> set (os_cache osim')" by (rule os_fully_slot)
next
  assume "0 < num_sets osim \<and> os_set_associative env osim address = Inr osim'"
  then show "address \<in> set (cache_sets osim' ! nat (address mod num_sets osim))"
    using os_set_slot by blast
qed

text \<open>The theorem at address 5 and capacity 4 under each mapping of each simulator.\<close>

theorem address_mapper_witness:
  "get_set_index (Cache_init \<lparr>cache_size = 4, block_size = 1, mapping = ''Direct'',
                              replacement_policy = ''LRU''\<rparr>) 5 = Inr 1 \<and>
   get_set_index (Cache_init \<lparr>cache_size = 4, block_size = 1, mapping = ''Fully-Associative'',
                              replacement_policy = ''LRU''\<rparr>) 5 = Inr 0 \<and>
   get_set_index (Cache_init \<lparr>cache_size = 4, block_size = 1, mapping = ''Set-Associative'',
                              replacement_policy = ''LRU''\<rparr>) 5 = Inr 1 \<and>
   get_set_index ((Cache_init \<lparr>cache_size = 4, block_size = 1, mapping = ''Direct'',
                              replacement_policy = ''LRU''\<rparr>)
                    \<lparr>sets := replicate 4 \<lparr>blocks = [CacheBlock 9], associativity = 1\<rparr>\<rparr>) 5 =
   get_set_index (Cache_init \<lparr>cache_size = 4, block_size = 1, mapping = ''Direct'',
                              replacement_policy = ''LRU''\<rparr>) 5 \<and>
   geometry_ok (Cache_init \<lparr>cache_size = 4, block_size = 1, mapping = ''Direct'',
                              replacement_policy = ''LRU''\<rparr>) \<and>
   (\<exists>k. get_set_index (Cache_init \<lparr>cache_size = 4, block_size = 1, mapping = ''Direct'',
                              replacement_policy = ''LRU''\<rparr>) 5 = Inr k \<and> 0 \<le> k \<and> k < 4) \<and>
   (case os_CacheSimulator_init \<lparr>cfg_sequence = [5], cfg_cache_size = 4,
            cfg_mapping = DIRECT, cfg_associativity = None\<rparr> of
      Inl e \<Rightarrow> False
    | Inr osim \<Rightarrow>
        (case os_direct_mapping osim 5 of
           Inl e \<Rightarrow> False
         | Inr osim' \<Rightarrow> os_cache osim' ! 1 = Some 5)) \<and>
   (case os_CacheSimulator_init \<lparr>cfg_sequence = [5], cfg_cache_size = 4,
            cfg_mapping = FULLY_ASSOCIATIVE, cfg_associativity = None\<rparr> of
      Inl e \<Rightarrow> False
    | Inr osim \<Rightarrow>
        (case os_fully_associative
                \<lparr>ask_policy_callback = (\<lambda>k. LRU), random_source = (\<lambda>k. 0)\<rparr> osim 5 of
           Inl e \<Rightarrow> False
         | Inr osim' \<Rightarrow> Some 5 \<in> set (os_cache osim'))) \<and>
   (case os_CacheSimulator_init \<lparr>cfg_sequence = [5], cfg_cache_size = 4,
            cfg_mapping = SET_ASSOCIATIVE, cfg_associativity = Some 2\<rparr> of
      Inl e \<Rightarrow> False
    | Inr osim \<Rightarrow>
        (case os_set_associative
                \<lparr>ask_policy_callback = (\<lambda>k. LRU), random_source = (\<lambda>k. 0)\<rparr> osim 5 of
           Inl e \<Rightarrow> False
         | Inr osim' \<Rightarrow> 5 \<in> set (cache_sets osim' ! 1)))"
proof -
  define cD where "cD = Cache_init \<lparr>cache_size = 4, block_size = 1, mapping = ''Direct'',
                              replacement_policy = ''LRU''\<rparr>"
  define cF where "cF = Cache_init \<lparr>cache_size = 4, block_size = 1,
                              mapping = ''Fully-Associative'', replacement_policy = ''LRU''\<rparr>"
  define cS where "cS = Cache_init \<lparr>cache_size = 4, block_size = 1,
                              mapping = ''Set-Associative'', replacement_policy = ''LRU''\<rparr>"
  define cD' where "cD' = cD\<lparr>sets := replicate 4 \<lparr>blocks = [CacheBlock 9], associativity = 1\<rparr>\<rparr>"
  define en where "en = \<lparr>ask_policy_callback = (\<lambda>k::nat. LRU), random_source = (\<lambda>k::nat. 0::nat)\<rparr>"
  define oD where "oD = \<lparr>cfg_sequence = [5], cfg_cache_size = 4,
            cfg_mapping = DIRECT, cfg_associativity = None\<rparr>"
  define oF where "oF = \<lparr>cfg_sequence = [5], cfg_cache_size = 4,
            cfg_mapping = FULLY_ASSOCIATIVE, cfg_associativity = None\<rparr>"
  define oS where "oS = \<lparr>cfg_sequence = [5], cfg_cache_size = 4,
            cfg_mapping = SET_ASSOCIATIVE, cfg_associativity = Some 2\<rparr>"
  have hD: "c_mapping cD = ''Direct'' \<and> c_cache_size cD \<noteq> 0"
    by (simp add: cD_def Cache_init_def)
  have "get_set_index cD 5 = Inr (5 mod c_cache_size cD)"
    by (rule address_mapper[where c = cD and address = 5, THEN conjunct1, THEN mp, OF hD])
  then have A: "get_set_index cD 5 = Inr 1" by (simp add: cD_def Cache_init_def)
  have hF: "c_mapping cF = ''Fully-Associative''" by (simp add: cF_def Cache_init_def)
  have B: "get_set_index cF 5 = Inr 0"
    by (rule address_mapper[where c = cF and address = 5,
          THEN conjunct2, THEN conjunct1, THEN mp, OF hF])
  have hS: "c_mapping cS = ''Set-Associative'' \<and> sets cS \<noteq> []"
    by (simp add: cS_def Cache_init_def)
  have "get_set_index cS 5 = Inr (5 mod int (length (sets cS)))"
    by (rule address_mapper[where c = cS and address = 5,
          THEN conjunct2, THEN conjunct2, THEN conjunct1, THEN mp, OF hS])
  then have C: "get_set_index cS 5 = Inr 1" by (simp add: cS_def Cache_init_def)
  have hE: "c_mapping cD' = c_mapping cD \<and> c_cache_size cD' = c_cache_size cD \<and>
            length (sets cD') = length (sets cD)"
    by (simp add: cD'_def cD_def Cache_init_def)
  have D: "get_set_index cD' 5 = get_set_index cD 5"
    by (rule address_mapper[where c = cD and c' = cD' and address = 5,
          THEN conjunct2, THEN conjunct2, THEN conjunct2, THEN conjunct1, THEN mp, OF hE])
  have G: "geometry_ok cD"
    by (simp add: cD_def Cache_init_def geometry_ok_def CacheSet_init_def)
  have "\<exists>k. get_set_index cD 5 = Inr k \<and> 0 \<le> k \<and> k < int (length (sets cD))"
    by (rule address_mapper[where c = cD and address = 5,
          THEN conjunct2, THEN conjunct2, THEN conjunct2, THEN conjunct2, THEN conjunct1,
          THEN mp, OF G])
  then have E: "\<exists>k. get_set_index cD 5 = Inr k \<and> 0 \<le> k \<and> k < 4"
    by (simp add: cD_def Cache_init_def)
  have vD: "os_valid_geometry oD" and vF: "os_valid_geometry oF" and vS: "os_valid_geometry oS"
    by (simp_all add: os_valid_geometry_def oD_def oF_def oS_def)
  have ask: "ask_policy_callback en k = LRU" for k by (simp add: en_def)
  from os_init_inv[OF vD, of LRU] obtain sD where
    iD: "os_CacheSimulator_init oD = Inr sD" by blast
  then have pD: "0 < os_cache_size sD" and cs4: "os_cache_size sD = 4"
    by (auto simp: os_CacheSimulator_init_def oD_def)
  from os_direct_total[OF pD] obtain sD' where dD: "os_direct_mapping sD 5 = Inr sD'" by blast
  have "os_cache sD' ! nat (5 mod os_cache_size sD) = Some 5"
    by (rule address_mapper[where osim = sD and osim' = sD' and address = 5,
          THEN conjunct2, THEN conjunct2, THEN conjunct2, THEN conjunct2, THEN conjunct2,
          THEN conjunct1, THEN mp, OF conjI[OF pD dD]])
  then have "os_cache sD' ! 1 = Some 5" by (simp add: cs4)
  with iD dD have F: "(case os_CacheSimulator_init oD of
      Inl e \<Rightarrow> False
    | Inr osim \<Rightarrow>
        (case os_direct_mapping osim 5 of
           Inl e \<Rightarrow> False
         | Inr osim' \<Rightarrow> os_cache osim' ! 1 = Some 5))" by simp
  from os_init_inv[OF vF, of LRU] obtain sF where
    iF: "os_CacheSimulator_init oF = Inr sF" and oiF: "os_inv LRU sF" by blast
  then have mF: "os_mapping sF = FULLY_ASSOCIATIVE"
    by (auto simp: os_CacheSimulator_init_def oF_def)
  from os_fully_total[OF oiF mF ask] obtain sF' where
    dF: "os_fully_associative en sF 5 = Inr sF'" by blast
  have "Some 5 \<in> set (os_cache sF')"
    by (rule address_mapper[where osim = sF and osim' = sF' and address = 5 and env = en,
          THEN conjunct2, THEN conjunct2, THEN conjunct2, THEN conjunct2, THEN conjunct2,
          THEN conjunct2, THEN conjunct1, THEN mp, OF dF])
  with iF dF have H: "(case os_CacheSimulator_init oF of
      Inl e \<Rightarrow> False
    | Inr osim \<Rightarrow>
        (case os_fully_associative en osim 5 of
           Inl e \<Rightarrow> False
         | Inr osim' \<Rightarrow> Some 5 \<in> set (os_cache osim')))" by simp
  from os_init_inv[OF vS, of LRU] obtain sS where
    iS: "os_CacheSimulator_init oS = Inr sS" and oiS: "os_inv LRU sS" by blast
  then have mS: "os_mapping sS = SET_ASSOCIATIVE" and nS: "num_sets sS = 2"
    by (auto simp: os_CacheSimulator_init_def oS_def py_floordiv_def)
  have pS: "0 < num_sets sS" by (simp add: nS)
  from os_set_total[OF oiS mS ask] obtain sS' where
    dS: "os_set_associative en sS 5 = Inr sS'" by blast
  have "5 \<in> set (cache_sets sS' ! nat (5 mod num_sets sS))"
    by (rule address_mapper[where osim = sS and osim' = sS' and address = 5 and env = en,
          THEN conjunct2, THEN conjunct2, THEN conjunct2, THEN conjunct2, THEN conjunct2,
          THEN conjunct2, THEN conjunct2, THEN mp, OF conjI[OF pS dS]])
  then have "5 \<in> set (cache_sets sS' ! 1)" by (simp add: nS)
  with iS dS have I: "(case os_CacheSimulator_init oS of
      Inl e \<Rightarrow> False
    | Inr osim \<Rightarrow>
        (case os_set_associative en osim 5 of
           Inl e \<Rightarrow> False
         | Inr osim' \<Rightarrow> 5 \<in> set (cache_sets osim' ! 1)))" by simp
  show ?thesis
    using A B C D G E F H I
    unfolding cD_def cF_def cS_def cD'_def en_def oD_def oF_def oS_def
    by (intro conjI)
qed

text \<open>
  C8. Every per-access step preserves, for every set, that the set holds no more addresses
  than its associativity and holds none twice, and the invariant holds in the final state
  of every run: in the fixed-policy simulator under the policies FIFO and LRU (where a run
  on a valid geometry always completes), and in the set-associative mapping of the callback
  simulator under any answers of the callback.
\<close>

theorem set_invariant_preserved:
  "((replacement_policy (config sim) = ''FIFO'' \<or> replacement_policy (config sim) = ''LRU'') \<and>
    (\<forall>s \<in> set (sets (cache sim)). set_inv s) \<and> access sim a = Inr (sim', ev) \<longrightarrow>
      (\<forall>s \<in> set (sets (cache sim')). set_inv s)) \<and>
   (valid_geometry cfg \<and>
    (replacement_policy cfg = ''FIFO'' \<or> replacement_policy cfg = ''LRU'') \<longrightarrow>
      (\<exists>sim' evs. run_loop (CacheSimulator_init cfg) seq = Inr (sim', evs) \<and>
           (\<forall>s \<in> set (sets (cache sim')). set_inv s))) \<and>
   (os_associativity osim = Some assoc \<and> (\<forall>cs \<in> set (cache_sets osim). os_set_inv assoc cs) \<and>
    os_set_associative env osim address = Inr osim' \<longrightarrow>
      (\<forall>cs \<in> set (cache_sets osim'). os_set_inv assoc cs)) \<and>
   (cfg_mapping ocfg = SET_ASSOCIATIVE \<and> cfg_associativity ocfg = Some assoc \<and> 0 \<le> assoc \<and>
    os_simulate env ocfg = Inr res \<longrightarrow>
      (\<forall>cs \<in> set (res_cache_sets res). os_set_inv assoc cs))"
proof (intro conjI impI)
  assume "(replacement_policy (config sim) = ''FIFO'' \<or> replacement_policy (config sim) = ''LRU'') \<and>
    (\<forall>s \<in> set (sets (cache sim)). set_inv s) \<and> access sim a = Inr (sim', ev)"
  then show "\<forall>s \<in> set (sets (cache sim')). set_inv s"
    using access_inv[of sim a sim' ev] by blast
next
  assume "valid_geometry cfg \<and>
    (replacement_policy cfg = ''FIFO'' \<or> replacement_policy cfg = ''LRU'')"
  then show "\<exists>sim' evs. run_loop (CacheSimulator_init cfg) seq = Inr (sim', evs) \<and>
           (\<forall>s \<in> set (sets (cache sim')). set_inv s)"
    using run_loop_inv_total[of cfg seq] by blast
next
  assume "os_associativity osim = Some assoc \<and>
    (\<forall>cs \<in> set (cache_sets osim). os_set_inv assoc cs) \<and>
    os_set_associative env osim address = Inr osim'"
  then show "\<forall>cs \<in> set (cache_sets osim'). os_set_inv assoc cs"
    using os_set_associative_inv[of osim assoc env address osim'] by blast
next
  assume "cfg_mapping ocfg = SET_ASSOCIATIVE \<and> cfg_associativity ocfg = Some assoc \<and>
    0 \<le> assoc \<and> os_simulate env ocfg = Inr res"
  then show "\<forall>cs \<in> set (res_cache_sets res). os_set_inv assoc cs"
    using os_simulate_set_inv[of env ocfg res assoc] by blast
qed

text \<open>The theorem on capacity 4 in two sets of associativity 2, for one step from the
  initial state and for the run over 1, 3, 1, 5, in both simulators.\<close>

theorem set_invariant_preserved_witness:
  "valid_geometry \<lparr>cache_size = 4, block_size = 1, mapping = ''Set-Associative'',
                   replacement_policy = ''LRU''\<rparr> \<and>
   (case access (CacheSimulator_init \<lparr>cache_size = 4, block_size = 1,
                   mapping = ''Set-Associative'', replacement_policy = ''LRU''\<rparr>) 1 of
      Inl e \<Rightarrow> False
    | Inr (sim', ev) \<Rightarrow> (\<forall>s \<in> set (sets (cache sim')). set_inv s)) \<and>
   (\<exists>sim' evs. run_loop (CacheSimulator_init \<lparr>cache_size = 4, block_size = 1,
                   mapping = ''Set-Associative'', replacement_policy = ''LRU''\<rparr>)
                 [1, 3, 1, 5] = Inr (sim', evs) \<and>
               (\<forall>s \<in> set (sets (cache sim')). set_inv s)) \<and>
   (case os_CacheSimulator_init \<lparr>cfg_sequence = [1, 3, 1, 5], cfg_cache_size = 4,
            cfg_mapping = SET_ASSOCIATIVE, cfg_associativity = Some 2\<rparr> of
      Inl e \<Rightarrow> False
    | Inr osim \<Rightarrow>
        (case os_set_associative \<lparr>ask_policy_callback = (\<lambda>k. LRU), random_source = (\<lambda>k. 0)\<rparr>
                osim 1 of
           Inl e \<Rightarrow> False
         | Inr osim' \<Rightarrow> (\<forall>cs \<in> set (cache_sets osim'). os_set_inv 2 cs))) \<and>
   (case os_simulate \<lparr>ask_policy_callback = (\<lambda>k. LRU), random_source = (\<lambda>k. 0)\<rparr>
           \<lparr>cfg_sequence = [1, 3, 1, 5], cfg_cache_size = 4,
            cfg_mapping = SET_ASSOCIATIVE, cfg_associativity = Some 2\<rparr> of
      Inl e \<Rightarrow> False
    | Inr res \<Rightarrow> (\<forall>cs \<in> set (res_cache_sets res). os_set_inv 2 cs))"
proof -
  define c0 where "c0 = \<lparr>cache_size = 4, block_size = 1, mapping = ''Set-Associative'',
                   replacement_policy = ''LRU''\<rparr>"
  define en where "en = \<lparr>ask_policy_callback = (\<lambda>k::nat. LRU), random_source = (\<lambda>k::nat. 0::nat)\<rparr>"
  define oc where "oc = \<lparr>cfg_sequence = [1, 3, 1, 5], cfg_cache_size = 4,
            cfg_mapping = SET_ASSOCIATIVE, cfg_associativity = Some 2\<rparr>"
  have v: "valid_geometry c0" by (simp add: c0_def valid_geometry_def)
  have p: "replacement_policy c0 = ''FIFO'' \<or> replacement_policy c0 = ''LRU''"
    by (simp add: c0_def)
  have p': "replacement_policy (config (CacheSimulator_init c0)) = ''FIFO'' \<or>
            replacement_policy (config (CacheSimulator_init c0)) = ''LRU''"
    by (simp add: c0_def CacheSimulator_init_def)
  from access_total[OF geometry_ok_init[OF v]] obtain sim1 ev1 where
    a1: "access (CacheSimulator_init c0) 1 = Inr (sim1, ev1)" by blast
  have s1: "\<forall>s \<in> set (sets (cache sim1)). set_inv s"
    by (rule set_invariant_preserved[of "CacheSimulator_init c0" 1 sim1 ev1,
          THEN conjunct1, THEN mp, OF conjI[OF p' conjI[OF init_inv[OF v] a1]]])
  have A: "(case access (CacheSimulator_init c0) 1 of
      Inl e \<Rightarrow> False
    | Inr (sim', ev) \<Rightarrow> (\<forall>s \<in> set (sets (cache sim')). set_inv s))"
    using a1 s1 by simp
  have B: "\<exists>sim' evs. run_loop (CacheSimulator_init c0) [1, 3, 1, 5] = Inr (sim', evs) \<and>
               (\<forall>s \<in> set (sets (cache sim')). set_inv s)"
    by (rule set_invariant_preserved[where cfg = c0 and seq = "[1, 3, 1, 5]",
          THEN conjunct2, THEN conjunct1, THEN mp, OF conjI[OF v p]])
  have ov: "os_valid_geometry oc" by (simp add: oc_def os_valid_geometry_def)
  from os_init_inv[OF ov, of LRU] obtain osim where
    i: "os_CacheSimulator_init oc = Inr osim" and oi: "os_inv LRU osim" by blast
  have m: "os_mapping osim = SET_ASSOCIATIVE" and oa: "os_associativity osim = Some 2"
    and e: "\<forall>cs \<in> set (cache_sets osim). os_set_inv 2 cs"
    using i by (auto simp: os_CacheSimulator_init_def oc_def py_floordiv_def os_set_inv_def)
  have ask: "ask_policy_callback en (asked osim) = LRU" by (simp add: en_def)
  from os_set_total[OF oi m ask] obtain osim' where
    st: "os_set_associative en osim 1 = Inr osim'" by blast
  have s3: "\<forall>cs \<in> set (cache_sets osim'). os_set_inv 2 cs"
    by (rule set_invariant_preserved[where osim = osim and assoc = 2 and env = en
          and address = 1 and osim' = osim',
          THEN conjunct2, THEN conjunct2, THEN conjunct1, THEN mp,
          OF conjI[OF oa conjI[OF e st]]])
  have C: "(case os_CacheSimulator_init oc of
      Inl e \<Rightarrow> False
    | Inr osim \<Rightarrow>
        (case os_set_associative en osim 1 of
           Inl e \<Rightarrow> False
         | Inr osim' \<Rightarrow> (\<forall>cs \<in> set (cache_sets osim'). os_set_inv 2 cs)))"
    using i st s3 by simp
  have fp: "\<forall>k. ask_policy_callback en k = LRU" by (simp add: en_def)
  from os_simulate_total[OF ov fp] obtain res where r: "os_simulate en oc = Inr res" by blast
  have om: "cfg_mapping oc = SET_ASSOCIATIVE" and oas: "cfg_associativity oc = Some 2"
    by (simp_all add: oc_def)
  have z: "(0::int) \<le> 2" by simp
  have s4: "\<forall>cs \<in> set (res_cache_sets res). os_set_inv 2 cs"
    by (rule set_invariant_preserved[where ocfg = oc and assoc = 2 and env = en and res = res,
          THEN conjunct2, THEN conjunct2, THEN conjunct2, THEN mp,
          OF conjI[OF om conjI[OF oas conjI[OF z r]]]])
  have D: "(case os_simulate en oc of
      Inl e \<Rightarrow> False
    | Inr res \<Rightarrow> (\<forall>cs \<in> set (res_cache_sets res). os_set_inv 2 cs))"
    using r s4 by simp
  show ?thesis using v A B C D unfolding c0_def en_def oc_def by (intro conjI)
qed

text \<open>
  C9. Two engines constructed from the same configuration and fed the same sequence return
  the same result. In the fixed-policy simulator nothing but the configuration and the
  sequence enters the run. In the callback simulator two runs whose callbacks give the same
  answers, none of them RANDOM, return the same result whatever their random generators
  yield.
\<close>

theorem two_runs_agree:
  "(sim1 = CacheSimulator_init cfg \<and> sim2 = CacheSimulator_init cfg \<longrightarrow>
      run sim1 seq = run sim2 seq) \<and>
   (ask_policy_callback env1 = ask_policy_callback env2 \<and>
    (\<forall>k. ask_policy_callback env1 k \<noteq> RANDOM) \<longrightarrow>
      os_simulate env1 ocfg = os_simulate env2 ocfg)"
  using os_simulate_indep[of env1 env2 ocfg] by auto

text \<open>The theorem for two callback runs under LRU whose generators differ.\<close>

theorem two_runs_agree_witness:
  "ask_policy_callback \<lparr>ask_policy_callback = (\<lambda>k. LRU), random_source = (\<lambda>k. 0)\<rparr> =
   ask_policy_callback \<lparr>ask_policy_callback = (\<lambda>k. LRU), random_source = (\<lambda>k. 7)\<rparr> \<and>
   (\<forall>k. ask_policy_callback \<lparr>ask_policy_callback = (\<lambda>k. LRU), random_source = (\<lambda>k. 0)\<rparr> k
        \<noteq> RANDOM) \<and>
   os_simulate \<lparr>ask_policy_callback = (\<lambda>k. LRU), random_source = (\<lambda>k. 0)\<rparr>
       \<lparr>cfg_sequence = [1, 2, 3, 1, 4], cfg_cache_size = 2,
        cfg_mapping = FULLY_ASSOCIATIVE, cfg_associativity = None\<rparr> =
   os_simulate \<lparr>ask_policy_callback = (\<lambda>k. LRU), random_source = (\<lambda>k. 7)\<rparr>
       \<lparr>cfg_sequence = [1, 2, 3, 1, 4], cfg_cache_size = 2,
        cfg_mapping = FULLY_ASSOCIATIVE, cfg_associativity = None\<rparr> \<and>
   run (CacheSimulator_init (fst get_input_data)) (snd get_input_data) =
   run (CacheSimulator_init (fst get_input_data)) (snd get_input_data)"
proof -
  define e1 where "e1 = \<lparr>ask_policy_callback = (\<lambda>k::nat. LRU), random_source = (\<lambda>k::nat. 0::nat)\<rparr>"
  define e2 where "e2 = \<lparr>ask_policy_callback = (\<lambda>k::nat. LRU), random_source = (\<lambda>k::nat. 7::nat)\<rparr>"
  define oc where "oc = \<lparr>cfg_sequence = [1, 2, 3, 1, 4], cfg_cache_size = 2,
        cfg_mapping = FULLY_ASSOCIATIVE, cfg_associativity = None\<rparr>"
  have a: "ask_policy_callback e1 = ask_policy_callback e2" by (simp add: e1_def e2_def)
  have n: "\<forall>k. ask_policy_callback e1 k \<noteq> RANDOM" by (simp add: e1_def)
  note t = two_runs_agree[of "CacheSimulator_init (fst get_input_data)" "fst get_input_data"
      "CacheSimulator_init (fst get_input_data)" "snd get_input_data" e1 e2 oc]
  have o: "os_simulate e1 oc = os_simulate e2 oc"
    by (rule t[THEN conjunct2, rule_format, OF conjI[OF a n]])
  have r: "run (CacheSimulator_init (fst get_input_data)) (snd get_input_data) =
           run (CacheSimulator_init (fst get_input_data)) (snd get_input_data)"
    by (rule t[THEN conjunct1, rule_format, OF conjI[OF refl refl]])
  show ?thesis using a n o r unfolding e1_def e2_def oc_def by (intro conjI)
qed

text \<open>Under RANDOM the draws do decide the result, which is why C9 leaves RANDOM out.\<close>

lemma random_draws_matter:
  "os_simulate \<lparr>ask_policy_callback = (\<lambda>k. RANDOM), random_source = (\<lambda>k. 0)\<rparr>
       \<lparr>cfg_sequence = [1, 2, 3, 1], cfg_cache_size = 2,
        cfg_mapping = FULLY_ASSOCIATIVE, cfg_associativity = None\<rparr> \<noteq>
   os_simulate \<lparr>ask_policy_callback = (\<lambda>k. RANDOM), random_source = (\<lambda>k. 1)\<rparr>
       \<lparr>cfg_sequence = [1, 2, 3, 1], cfg_cache_size = 2,
        cfg_mapping = FULLY_ASSOCIATIVE, cfg_associativity = None\<rparr>"
  by code_simp

text \<open>
  C7 (as the code behaves). Neither simulator validates the geometry, and no ConfigError
  exists. The fixed-policy simulator is always constructed; the callback simulator fails
  to construct exactly when the mapping is SET\_ASSOCIATIVE and the associativity is absent
  (TypeError) or 0 (ZeroDivisionError). With a non-positive capacity (any of the three
  mappings, policy FIFO or LRU) a run of the fixed-policy simulator over a non-empty
  sequence fails at its first access with ZeroDivisionError or IndexError, and its run over
  the empty sequence completes. In the callback simulator a non-positive capacity, or an
  associativity outside \<open>[1, capacity]\<close>, makes construction or the first access of a
  non-empty sequence fail with TypeError, ZeroDivisionError, IndexError or ValueError.
  Nothing is said of an associativity within \<open>[1, capacity]\<close> that does not divide the
  capacity.
\<close>

theorem invalid_geometry_surfaces_at_first_access:
  "(cache_size cfg \<le> 0 \<and>
    (mapping cfg = ''Direct'' \<or> mapping cfg = ''Fully-Associative'' \<or>
     mapping cfg = ''Set-Associative'') \<and>
    (replacement_policy cfg = ''FIFO'' \<or> replacement_policy cfg = ''LRU'') \<longrightarrow>
      (\<exists>e. run (CacheSimulator_init cfg) (a # rest) = Inl e \<and>
           (e = ZeroDivisionError \<or> e = IndexError))) \<and>
   run (CacheSimulator_init cfg) [] =
     Inr \<lparr>r_hits = 0, r_misses = 0, r_total = 0, r_log = []\<rparr> \<and>
   ((\<exists>e. os_CacheSimulator_init ocfg = Inl e) \<longleftrightarrow>
      cfg_mapping ocfg = SET_ASSOCIATIVE \<and>
      (cfg_associativity ocfg = None \<or> cfg_associativity ocfg = Some 0)) \<and>
   (os_invalid_geometry ocfg \<and> cfg_sequence ocfg \<noteq> [] \<longrightarrow>
      (\<exists>e. os_simulate env ocfg = Inl e \<and>
           (e = TypeError \<or> e = ZeroDivisionError \<or> e = IndexError \<or> e = ValueError)))"
proof (intro conjI impI)
  assume "cache_size cfg \<le> 0 \<and>
    (mapping cfg = ''Direct'' \<or> mapping cfg = ''Fully-Associative'' \<or>
     mapping cfg = ''Set-Associative'') \<and>
    (replacement_policy cfg = ''FIFO'' \<or> replacement_policy cfg = ''LRU'')"
  then show "\<exists>e. run (CacheSimulator_init cfg) (a # rest) = Inl e \<and>
           (e = ZeroDivisionError \<or> e = IndexError)"
    using run_nonpositive_capacity[of cfg a rest] by blast
next
  show "run (CacheSimulator_init cfg) [] =
     Inr \<lparr>r_hits = 0, r_misses = 0, r_total = 0, r_log = []\<rparr>" by (rule run_empty)
next
  show "(\<exists>e. os_CacheSimulator_init ocfg = Inl e) \<longleftrightarrow>
      cfg_mapping ocfg = SET_ASSOCIATIVE \<and>
      (cfg_associativity ocfg = None \<or> cfg_associativity ocfg = Some 0)"
    by (rule os_init_fails_iff)
next
  assume "os_invalid_geometry ocfg \<and> cfg_sequence ocfg \<noteq> []"
  then show "\<exists>e. os_simulate env ocfg = Inl e \<and>
           (e = TypeError \<or> e = ZeroDivisionError \<or> e = IndexError \<or> e = ValueError)"
    using os_invalid_fails[of ocfg env] by blast
qed

text \<open>The theorem at capacity 0 under Direct mapping, at associativity 3 for capacity 2,
  and at associativity 0.\<close>

theorem invalid_geometry_surfaces_at_first_access_witness:
  "(\<exists>e. run (CacheSimulator_init \<lparr>cache_size = 0, block_size = 1, mapping = ''Direct'',
                replacement_policy = ''LRU''\<rparr>) [1, 2] = Inl e \<and>
        (e = ZeroDivisionError \<or> e = IndexError)) \<and>
   os_invalid_geometry \<lparr>cfg_sequence = [1, 2], cfg_cache_size = 2,
       cfg_mapping = SET_ASSOCIATIVE, cfg_associativity = Some 3\<rparr> \<and>
   (\<exists>e. os_simulate \<lparr>ask_policy_callback = (\<lambda>k. LRU), random_source = (\<lambda>k. 0)\<rparr>
            \<lparr>cfg_sequence = [1, 2], cfg_cache_size = 2,
             cfg_mapping = SET_ASSOCIATIVE, cfg_associativity = Some 3\<rparr> = Inl e \<and>
        (e = TypeError \<or> e = ZeroDivisionError \<or> e = IndexError \<or> e = ValueError)) \<and>
   (\<exists>e. os_CacheSimulator_init \<lparr>cfg_sequence = [1, 2], cfg_cache_size = 2,
             cfg_mapping = SET_ASSOCIATIVE, cfg_associativity = Some 0\<rparr> = Inl e)"
proof -
  define c0 where "c0 = \<lparr>cache_size = 0, block_size = 1, mapping = ''Direct'',
                replacement_policy = ''LRU''\<rparr>"
  define en where "en = \<lparr>ask_policy_callback = (\<lambda>k::nat. LRU), random_source = (\<lambda>k::nat. 0::nat)\<rparr>"
  define oc where "oc = \<lparr>cfg_sequence = [1, 2], cfg_cache_size = 2,
       cfg_mapping = SET_ASSOCIATIVE, cfg_associativity = Some 3\<rparr>"
  define oz where "oz = \<lparr>cfg_sequence = [1, 2], cfg_cache_size = 2,
       cfg_mapping = SET_ASSOCIATIVE, cfg_associativity = Some 0\<rparr>"
  have h: "cache_size c0 \<le> 0 \<and>
    (mapping c0 = ''Direct'' \<or> mapping c0 = ''Fully-Associative'' \<or>
     mapping c0 = ''Set-Associative'') \<and>
    (replacement_policy c0 = ''FIFO'' \<or> replacement_policy c0 = ''LRU'')"
    by (simp add: c0_def)
  have A: "\<exists>e. run (CacheSimulator_init c0) (1 # [2]) = Inl e \<and>
        (e = ZeroDivisionError \<or> e = IndexError)"
    by (rule invalid_geometry_surfaces_at_first_access[where cfg = c0 and a = 1 and rest = "[2]",
          THEN conjunct1, THEN mp, OF h])
  have bad: "os_invalid_geometry oc" by (simp add: oc_def os_invalid_geometry_def)
  have ne: "cfg_sequence oc \<noteq> []" by (simp add: oc_def)
  have B: "\<exists>e. os_simulate en oc = Inl e \<and>
        (e = TypeError \<or> e = ZeroDivisionError \<or> e = IndexError \<or> e = ValueError)"
    by (rule invalid_geometry_surfaces_at_first_access[where ocfg = oc and env = en,
          THEN conjunct2, THEN conjunct2, THEN conjunct2, THEN mp, OF conjI[OF bad ne]])
  have z: "cfg_mapping oz = SET_ASSOCIATIVE \<and>
      (cfg_associativity oz = None \<or> cfg_associativity oz = Some 0)"
    by (simp add: oz_def)
  have C: "\<exists>e. os_CacheSimulator_init oz = Inl e"
    by (rule invalid_geometry_surfaces_at_first_access[where ocfg = oz,
          THEN conjunct2, THEN conjunct2, THEN conjunct1, THEN iffD2, OF z])
  show ?thesis using A bad B C unfolding c0_def en_def oc_def oz_def by (intro conjI)
qed

text \<open>C7 as stated fails. Capacity 5 with associativity 2 (which does not divide 5) is
  accepted by the callback simulator and its three accesses are processed; the
  fixed-policy simulator with capacity 0 is constructed, completes the empty run, and on
  a first access raises IndexError from inside the step.\<close>

theorem invalid_geometry_counterexample:
  "os_simulate \<lparr>ask_policy_callback = (\<lambda>k. LRU), random_source = (\<lambda>k. 0)\<rparr>
       \<lparr>cfg_sequence = [1, 3, 1], cfg_cache_size = 5, cfg_mapping = SET_ASSOCIATIVE,
        cfg_associativity = Some 2\<rparr> =
     Inr \<lparr>res_hits = 1, res_misses = 2, res_cache = [], res_cache_sets = [[], [1, 3]],
          res_history = [''M'', ''M'', ''H''], res_sequence = [1, 3, 1]\<rparr> \<and>
   run (CacheSimulator_init \<lparr>cache_size = 0, block_size = 1, mapping = ''Fully-Associative'',
                              replacement_policy = ''LRU''\<rparr>) [] =
     Inr \<lparr>r_hits = 0, r_misses = 0, r_total = 0, r_log = []\<rparr> \<and>
   run (CacheSimulator_init \<lparr>cache_size = 0, block_size = 1, mapping = ''Fully-Associative'',
                              replacement_policy = ''LRU''\<rparr>) [7] = Inl IndexError"
  by code_simp

lemma reachable_distinct:
  assumes "run_loop (CacheSimulator_init cfg) pre = Inr (sim1, evs1)"
    and "i < length (sets (cache sim1))"
  shows "distinct (resident sim1 i)"
  using run_loop_distinct[OF init_distinct assms(1)] assms(2)
  by (simp add: resident_def)

lemma access_hit_lru:
  assumes p: "replacement_policy (config sim) = ''LRU''"
    and a: "access sim x = Inr (sim', e)" and h: "ev_status e = ''HIT''"
    and d: "distinct (resident sim (ev_set e))"
  shows "resident sim' (ev_set e) = filter (\<lambda>t. t \<noteq> x) (resident sim (ev_set e)) @ [x]"
proof -
  from access_facts(11)[OF a] p h obtain s' where
    s': "access_set ''LRU'' (sets (cache sim) ! ev_set e) x = Inr (s', ''HIT'', ev_victim e)"
    "sets (cache sim') = (sets (cache sim))[ev_set e := s']" by auto
  have l: "ev_set e < length (sets (cache sim))" by (rule access_facts(10)[OF a])
  from access_set_hit_lru[OF s'(1)] d s'(2) l show ?thesis by (simp add: resident_def)
qed

lemma hit_is_resident:
  assumes a: "access sim x = Inr (sim', e)" and h: "ev_status e = ''HIT''"
  shows "x \<in> set (resident sim (ev_set e))"
proof -
  from access_facts(11)[OF a] h obtain s' where
    s': "access_set (replacement_policy (config sim)) (sets (cache sim) ! ev_set e) x
           = Inr (s', ''HIT'', ev_victim e)" by auto
  then have "find_block (sets (cache sim) ! ev_set e) x \<noteq> None"
    unfolding access_set_def is_full_def apply_fifo_policy_def remove_block_def
      pop0_def add_block_def
    by (auto split: option.splits list.splits if_splits sum.splits)
  then show ?thesis by (auto simp: find_block_None resident_def)
qed

lemma head_not_hit:
  assumes d: "distinct ts" and m: "x \<in> set ts" and l: "2 \<le> length ts"
  shows "filter (\<lambda>t. t \<noteq> x) ts \<noteq> [] \<and> hd (filter (\<lambda>t. t \<noteq> x) ts) \<noteq> x"
proof -
  have "\<exists>y \<in> set ts. y \<noteq> x"
  proof (rule ccontr)
    assume "\<not> (\<exists>y \<in> set ts. y \<noteq> x)"
    then have "set ts \<subseteq> {x}" by auto
    then have "card (set ts) \<le> card {x}" by (intro card_mono) auto
    then have "card (set ts) \<le> 1" by simp
    with d l show False by (simp add: distinct_card)
  qed
  then have ne: "filter (\<lambda>t. t \<noteq> x) ts \<noteq> []" by (auto simp: filter_empty_conv)
  then have "hd (filter (\<lambda>t. t \<noteq> x) ts) \<in> set (filter (\<lambda>t. t \<noteq> x) ts)" by (rule hd_in_set)
  then have "hd (filter (\<lambda>t. t \<noteq> x) ts) \<noteq> x" by simp
  with ne show ?thesis by blast
qed

lemma run_loop_snoc:
  "run_loop sim as = Inr (s1, ev1) \<Longrightarrow> access s1 x = Inr (s2, e) \<Longrightarrow>
     run_loop sim (as @ [x]) = Inr (s2, ev1 @ [e])"
proof (induction as arbitrary: sim ev1)
  case Nil
  then show ?case by simp
next
  case (Cons a as)
  from Cons.prems(1) obtain sim1 ev evs1 where
    a: "access sim a = Inr (sim1, ev)" and r: "run_loop sim1 as = Inr (s1, evs1)"
    and e: "ev1 = ev # evs1"
    by (auto split: sum.splits prod.splits)
  from Cons.IH[OF r Cons.prems(2)] a e show ?case by simp
qed

text \<open>
  C2 (as the code behaves). Under the LRU policy of the fixed-policy simulator, in every
  state a run reaches and for every set: a HIT on address \<open>x\<close> moves \<open>x\<close> to the
  most-recent end of the set and leaves the order of the others unchanged; every eviction
  removes the address at the oldest end and appends the new one at the most-recent end;
  and if the set holds at least two addresses when \<open>x\<close> is hit, then the next eviction
  from that set, with no other HIT on the set in between, does not select \<open>x\<close>.
\<close>

theorem lru_recency_order:
  assumes lru: "replacement_policy cfg = ''LRU''"
    and pre: "run_loop (CacheSimulator_init cfg) pre = Inr (sim1, evs1)"
    and acc: "access sim1 x = Inr (sim2, e)"
  shows "(ev_status e = ''HIT'' \<longrightarrow>
            resident sim2 (ev_set e) = filter (\<lambda>t. t \<noteq> x) (resident sim1 (ev_set e)) @ [x]) \<and>
         (\<forall>v. ev_victim e = Some v \<longrightarrow>
            resident sim1 (ev_set e) \<noteq> [] \<and> tag v = hd (resident sim1 (ev_set e)) \<and>
            resident sim2 (ev_set e) = tl (resident sim1 (ev_set e)) @ [x]) \<and>
         (ev_status e = ''HIT'' \<and> 2 \<le> length (resident sim1 (ev_set e)) \<longrightarrow>
            (\<forall>mid sim3 evs3 y sim4 e4 v.
               run_loop sim2 mid = Inr (sim3, evs3) \<and>
               (\<forall>e' \<in> set evs3. ev_set e' = ev_set e \<longrightarrow>
                    ev_status e' = ''MISS'' \<and> ev_victim e' = None) \<and>
               access sim3 y = Inr (sim4, e4) \<and> ev_set e4 = ev_set e \<and>
               ev_victim e4 = Some v \<longrightarrow> tag v \<noteq> x))"
proof (intro conjI impI allI)
  have c1: "replacement_policy (config sim1) = ''LRU''"
    using run_loop_facts[OF pre] lru by (simp add: CacheSimulator_init_def)
  have l: "ev_set e < length (sets (cache sim1))" by (rule access_facts(10)[OF acc])
  have d: "distinct (resident sim1 (ev_set e))" by (rule reachable_distinct[OF pre l])
  {
    assume h: "ev_status e = ''HIT''"
    show "resident sim2 (ev_set e) = filter (\<lambda>t. t \<noteq> x) (resident sim1 (ev_set e)) @ [x]"
      by (rule access_hit_lru[OF c1 acc h d])
  }
  {
    fix v assume v: "ev_victim e = Some v"
    note r = access_resident(3)[OF acc refl v]
    show "resident sim1 (ev_set e) \<noteq> []" using r by blast
    show "tag v = hd (resident sim1 (ev_set e))" using r by blast
    show "resident sim2 (ev_set e) = tl (resident sim1 (ev_set e)) @ [x]" using r by blast
  }
  {
    fix mid sim3 evs3 y sim4 e4 v
    assume h: "ev_status e = ''HIT'' \<and> 2 \<le> length (resident sim1 (ev_set e))"
      and s: "run_loop sim2 mid = Inr (sim3, evs3) \<and>
               (\<forall>e' \<in> set evs3. ev_set e' = ev_set e \<longrightarrow>
                    ev_status e' = ''MISS'' \<and> ev_victim e' = None) \<and>
               access sim3 y = Inr (sim4, e4) \<and> ev_set e4 = ev_set e \<and>
               ev_victim e4 = Some v"
    from h have hit: "ev_status e = ''HIT''" and two: "2 \<le> length (resident sim1 (ev_set e))"
      by blast+
    have r2: "resident sim2 (ev_set e) = filter (\<lambda>t. t \<noteq> x) (resident sim1 (ev_set e)) @ [x]"
      by (rule access_hit_lru[OF c1 acc hit d])
    have m: "x \<in> set (resident sim1 (ev_set e))" by (rule hit_is_resident[OF acc hit])
    from head_not_hit[OF d m two]
    have f1: "filter (\<lambda>t. t \<noteq> x) (resident sim1 (ev_set e)) \<noteq> []"
      and f2: "hd (filter (\<lambda>t. t \<noteq> x) (resident sim1 (ev_set e))) \<noteq> x" by blast+
    have hd2: "hd (resident sim2 (ev_set e)) \<noteq> x" unfolding r2 using f1 f2 by (simp add: hd_append)
    have ne2: "resident sim2 (ev_set e) \<noteq> []" unfolding r2 by simp
    from s have mid: "run_loop sim2 mid = Inr (sim3, evs3)"
      and quiet: "\<forall>e' \<in> set evs3. ev_set e' = ev_set e \<longrightarrow>
                    ev_status e' = ''MISS'' \<and> ev_victim e' = None"
      and a4: "access sim3 y = Inr (sim4, e4)" and same: "ev_set e4 = ev_set e"
      and vic: "ev_victim e4 = Some v" by blast+
    from run_loop_quiet[OF mid quiet] obtain ys where
      r3: "resident sim3 (ev_set e) = resident sim2 (ev_set e) @ ys" by blast
    from access_resident(3)[OF a4 same vic] have "tag v = hd (resident sim3 (ev_set e))" by blast
    with r3 ne2 have "tag v = hd (resident sim2 (ev_set e))" by simp
    with hd2 show "tag v \<noteq> x" by simp
  }
qed

text \<open>The theorem on capacity 4 in two sets of associativity 2: after the misses on 1 and
  3 the HIT on 1 reorders set 1 to 3, 1, and the miss on 5 evicts 3 and leaves 1, 5.\<close>

theorem lru_recency_order_witness:
  "replacement_policy \<lparr>cache_size = 4, block_size = 1, mapping = ''Set-Associative'',
                       replacement_policy = ''LRU''\<rparr> = ''LRU'' \<and>
   (case run_loop (CacheSimulator_init \<lparr>cache_size = 4, block_size = 1,
                     mapping = ''Set-Associative'', replacement_policy = ''LRU''\<rparr>) [1, 3] of
      Inl err \<Rightarrow> False
    | Inr (sim1, evs1) \<Rightarrow>
        (case access sim1 1 of
           Inl err \<Rightarrow> False
         | Inr (sim2, e) \<Rightarrow>
             ev_status e = ''HIT'' \<and> resident sim1 (ev_set e) = [1, 3] \<and>
             resident sim2 (ev_set e) = [3, 1] \<and>
             (case access sim2 5 of
                Inl err \<Rightarrow> False
              | Inr (sim4, e4) \<Rightarrow>
                  ev_set e4 = ev_set e \<and>
                  (case ev_victim e4 of
                     None \<Rightarrow> False
                   | Some v \<Rightarrow>
                       tag v \<noteq> 1 \<and> tag v = hd (resident sim2 (ev_set e)) \<and>
                       resident sim4 (ev_set e) = [1, 5]))))"
proof -
  define c0 where "c0 = \<lparr>cache_size = 4, block_size = 1, mapping = ''Set-Associative'',
                       replacement_policy = ''LRU''\<rparr>"
  have p: "replacement_policy c0 = ''LRU''" by (simp add: c0_def)
  have E: "(case run_loop (CacheSimulator_init c0) [1, 3] of
      Inl err \<Rightarrow> False
    | Inr (sim1, evs1) \<Rightarrow>
        (case access sim1 1 of
           Inl err \<Rightarrow> False
         | Inr (sim2, e) \<Rightarrow>
             ev_status e = ''HIT'' \<and> resident sim1 (ev_set e) = [1, 3] \<and>
             (case access sim2 5 of
                Inl err \<Rightarrow> False
              | Inr (sim4, e4) \<Rightarrow>
                  ev_set e4 = ev_set e \<and> ev_victim e4 = Some (CacheBlock 3))))"
    unfolding c0_def by code_simp
  from E obtain sim1 evs1 where r1: "run_loop (CacheSimulator_init c0) [1, 3] = Inr (sim1, evs1)"
    by (auto split: sum.splits)
  from E r1 obtain sim2 e where a1: "access sim1 1 = Inr (sim2, e)"
    by (auto split: sum.splits)
  from E r1 a1 obtain sim4 e4 where a4: "access sim2 5 = Inr (sim4, e4)"
    by (auto split: sum.splits)
  from E r1 a1 a4 have hit: "ev_status e = ''HIT''"
    and res1: "resident sim1 (ev_set e) = [1, 3]" and se4: "ev_set e4 = ev_set e"
    and vic: "ev_victim e4 = Some (CacheBlock 3)" by simp_all
  note T = lru_recency_order[OF p r1 a1]
  have r2: "resident sim2 (ev_set e) = filter (\<lambda>t. t \<noteq> 1) (resident sim1 (ev_set e)) @ [1]"
    by (rule T[THEN conjunct1, THEN mp, OF hit])
  have res2: "resident sim2 (ev_set e) = [3, 1]" unfolding r2 res1 by simp
  have two: "2 \<le> length (resident sim1 (ev_set e))" unfolding res1 by simp
  have prem: "run_loop sim2 [] = Inr (sim2, []) \<and>
               (\<forall>e' \<in> set []. ev_set e' = ev_set e \<longrightarrow>
                    ev_status e' = ''MISS'' \<and> ev_victim e' = None) \<and>
               access sim2 5 = Inr (sim4, e4) \<and> ev_set e4 = ev_set e \<and>
               ev_victim e4 = Some (CacheBlock 3)"
    using a4 se4 vic by simp
  have nx: "tag (CacheBlock 3) \<noteq> 1"
    using T[THEN conjunct2, THEN conjunct2, THEN mp, OF conjI[OF hit two]] prem by blast
  have r3: "run_loop (CacheSimulator_init c0) ([1, 3] @ [1]) = Inr (sim2, evs1 @ [e])"
    by (rule run_loop_snoc[OF r1 a1])
  note U = lru_recency_order[OF p r3 a4]
  from U[THEN conjunct2, THEN conjunct1, THEN spec, THEN mp, OF vic]
  have ev: "tag (CacheBlock 3) = hd (resident sim2 (ev_set e4))"
    and r4: "resident sim4 (ev_set e4) = tl (resident sim2 (ev_set e4)) @ [5]" by blast+
  have res4: "resident sim4 (ev_set e) = [1, 5]" using r4 unfolding se4 res2 by simp
  have ev': "tag (CacheBlock 3) = hd (resident sim2 (ev_set e))" using ev unfolding se4 .
  have "(case run_loop (CacheSimulator_init c0) [1, 3] of
      Inl err \<Rightarrow> False
    | Inr (sim1, evs1) \<Rightarrow>
        (case access sim1 1 of
           Inl err \<Rightarrow> False
         | Inr (sim2, e) \<Rightarrow>
             ev_status e = ''HIT'' \<and> resident sim1 (ev_set e) = [1, 3] \<and>
             resident sim2 (ev_set e) = [3, 1] \<and>
             (case access sim2 5 of
                Inl err \<Rightarrow> False
              | Inr (sim4, e4) \<Rightarrow>
                  ev_set e4 = ev_set e \<and>
                  (case ev_victim e4 of
                     None \<Rightarrow> False
                   | Some v \<Rightarrow>
                       tag v \<noteq> 1 \<and> tag v = hd (resident sim2 (ev_set e)) \<and>
                       resident sim4 (ev_set e) = [1, 5]))))"
    unfolding r1 using hit res1 res2 se4 nx ev' res4 by (simp add: a1 a4 vic)
  then show ?thesis using p unfolding c0_def by (intro conjI)
qed

text \<open>C2 as stated fails when the address that was hit is the only member of its set: the
  next eviction from the set selects it. Under Direct mapping (one block per set) the miss
  on 6 evicts 2 right after the HIT on 2; in a fully associative cache of capacity 2 the
  HIT on 1, the insertion of 2 and the miss on 3 evict 1.\<close>

theorem lru_next_eviction_counterexample:
  "(case run_loop (CacheSimulator_init \<lparr>cache_size = 4, block_size = 1, mapping = ''Direct'',
                     replacement_policy = ''LRU''\<rparr>) [2, 2, 6] of
      Inl err \<Rightarrow> False
    | Inr (sim, evs) \<Rightarrow>
        map (\<lambda>e. (ev_set e, ev_addr e, ev_status e, ev_victim e)) evs =
          [(2, 2, ''MISS'', None), (2, 2, ''HIT'', None),
           (2, 6, ''MISS'', Some (CacheBlock 2))]) \<and>
   (case run_loop (CacheSimulator_init \<lparr>cache_size = 2, block_size = 1,
                     mapping = ''Fully-Associative'', replacement_policy = ''LRU''\<rparr>)
           [1, 1, 2, 3] of
      Inl err \<Rightarrow> False
    | Inr (sim, evs) \<Rightarrow>
        map (\<lambda>e. (ev_set e, ev_addr e, ev_status e, ev_victim e)) evs =
          [(0, 1, ''MISS'', None), (0, 1, ''HIT'', None), (0, 2, ''MISS'', None),
           (0, 3, ''MISS'', Some (CacheBlock 1))])"
  by code_simp

text \<open>The callback simulator does not have the property of C2: \<open>_set_associative\<close> and
  \<open>_fully_associative\<close> leave \<open>lru_stacks\<close> and \<open>lru_stack\<close> alone on a hit, so under LRU
  the entry that was just hit can be the next victim. With capacity 4 and associativity 2,
  the addresses 1, 3, 1, 5 all fall into set 1; the hit on 1 is followed by the eviction
  of 1.\<close>

lemma os_lru_ignores_hits:
  "(case os_CacheSimulator_init \<lparr>cfg_sequence = [1, 3, 1, 5], cfg_cache_size = 4,
        cfg_mapping = SET_ASSOCIATIVE, cfg_associativity = Some 2\<rparr> of
      Inl e \<Rightarrow> False
    | Inr sim \<Rightarrow>
       (case os_run_loop \<lparr>ask_policy_callback = (\<lambda>k. LRU), random_source = (\<lambda>k. 0)\<rparr> sim
               (sequence sim) of
          Inl e \<Rightarrow> False
        | Inr sim' \<Rightarrow>
            history sim' = [''M'', ''M'', ''H'', ''M''] \<and>
            evicted sim' = [(1, Some 1)] \<and>
            cache_sets sim' = [[], [5, 3]]))"
  by code_simp

end
